theory Spec2Isabelle
  imports Complex_Main "HOL-Library.AList"
begin

section \<open>Go types as the reflection layer sees them\<close>

text \<open>
  The schema synthesis of \<^verbatim>\<open>swagger/swagger.go\<close> inspects its models through Go's
  \<^verbatim>\<open>reflect\<close> package only. \<open>kind\<close> is \<^verbatim>\<open>reflect.Kind\<close>; \<open>IntK\<close> is
  \<^verbatim>\<open>reflect.Int\<close> (the name \<open>Int\<close> is taken by set intersection).
\<close>

datatype kind = Invalid | Bool | IntK | Int8 | Int16 | Int32 | Int64
  | Uint | Uint8 | Uint16 | Uint32 | Uint64 | Uintptr
  | Float32 | Float64 | Complex64 | Complex128
  | Array | Chan | Func | Interface | Map | Ptr | Slice | String | Struct | UnsafePointer

text \<open>
  A type is a predeclared basic type (\<open>Basic k\<close>, e.g. \<^verbatim>\<open>int\<close>, \<^verbatim>\<open>string\<close>), a defined
  type identified by its package path and its name (\<open>Named pkg name\<close>, where \<open>name\<close>
  is what \<^verbatim>\<open>Type.Name()\<close> returns, type arguments included for a generic
  instantiation), or a type literal. \<open>IfaceT\<close> is \<^verbatim>\<open>interface{}\<close>.
\<close>

datatype gotype = Basic kind | Named string string | PtrTo gotype | SliceOf gotype
  | ArrayOf gotype | MapOf gotype gotype | ChanOf gotype | FuncT | IfaceT

text \<open>
  An enum member (\<^verbatim>\<open>interface{}\<close> in \<^verbatim>\<open>Enums() map[string]interface{}\<close>) is a
  dynamic type with a comparable payload; two members are equal as Go interface values
  iff type and payload agree.
\<close>

datatype lit = LInt int | LStr string | LBool bool

datatype goval = GoVal (dyn_type: gotype) (payload: lit)

text \<open>
  A struct field as \<^verbatim>\<open>reflect.StructField\<close> shows it. \<open>fld_tag\<close> is the result of
  \<^verbatim>\<open>structtag.Parse(string(field.Tag))\<close>: \<open>None\<close> when the tag does not parse (the
  code panics on it), otherwise the tags in order, each a key and its \<^verbatim>\<open>Name\<close>.
\<close>

record StructField =
  fld_name :: string
  fld_type :: gotype
  fld_tag :: "(string \<times> string) list option"
  fld_exported :: bool

text \<open>
  The declaration of a defined type: a struct with its fields, or another underlying
  type literal (\<^verbatim>\<open>type Color int\<close>). \<open>td_enums\<close> is \<open>Some es\<close> when the type
  implements \<^verbatim>\<open>EnumAble\<close> with a value receiver, \<open>es\<close> being the pairs of
  \<^verbatim>\<open>Enums()\<close> in the order the \<^verbatim>\<open>range\<close> loop visits them.
\<close>

datatype shape = StructOf "StructField list" | DefinedAs gotype

record typeinfo =
  td_shape :: shape
  td_enums :: "(string \<times> goval) list option"

type_synonym tyenv = "string \<times> string \<Rightarrow> typeinfo"

fun kindLit :: "gotype \<Rightarrow> kind" where
  "kindLit (Basic k) = k"
| "kindLit (Named p n) = Invalid"
| "kindLit (PtrTo t) = Ptr"
| "kindLit (SliceOf t) = Slice"
| "kindLit (ArrayOf t) = Array"
| "kindLit (MapOf k t) = Map"
| "kindLit (ChanOf t) = Chan"
| "kindLit FuncT = Func"
| "kindLit IfaceT = Interface"

definition kindOf :: "tyenv \<Rightarrow> gotype \<Rightarrow> kind" where
  "kindOf env t = (case t of
      Named p n \<Rightarrow> (case td_shape (env (p, n)) of StructOf fs \<Rightarrow> Struct | DefinedAs u \<Rightarrow> kindLit u)
    | _ \<Rightarrow> kindLit t)"

fun elemLit :: "gotype \<Rightarrow> gotype" where
  "elemLit (PtrTo t) = t"
| "elemLit (SliceOf t) = t"
| "elemLit (ArrayOf t) = t"
| "elemLit (MapOf k t) = t"
| "elemLit (ChanOf t) = t"
| "elemLit t = Basic Invalid"

definition elemOf :: "tyenv \<Rightarrow> gotype \<Rightarrow> gotype" where
  "elemOf env t = (case t of
      Named p n \<Rightarrow> (case td_shape (env (p, n)) of StructOf fs \<Rightarrow> Basic Invalid | DefinedAs u \<Rightarrow> elemLit u)
    | _ \<Rightarrow> elemLit t)"

definition fieldsOf :: "tyenv \<Rightarrow> gotype \<Rightarrow> StructField list" where
  "fieldsOf env t = (case t of
      Named p n \<Rightarrow> (case td_shape (env (p, n)) of StructOf fs \<Rightarrow> fs | DefinedAs u \<Rightarrow> [])
    | _ \<Rightarrow> [])"

fun kindName :: "kind \<Rightarrow> string" where
  "kindName Bool = ''bool''"
| "kindName IntK = ''int''"
| "kindName Int8 = ''int8''"
| "kindName Int16 = ''int16''"
| "kindName Int32 = ''int32''"
| "kindName Int64 = ''int64''"
| "kindName Uint = ''uint''"
| "kindName Uint8 = ''uint8''"
| "kindName Uint16 = ''uint16''"
| "kindName Uint32 = ''uint32''"
| "kindName Uint64 = ''uint64''"
| "kindName Uintptr = ''uintptr''"
| "kindName Float32 = ''float32''"
| "kindName Float64 = ''float64''"
| "kindName Complex64 = ''complex64''"
| "kindName Complex128 = ''complex128''"
| "kindName String = ''string''"
| "kindName UnsafePointer = ''Pointer''"
| "kindName k = []"

text \<open>\<^verbatim>\<open>Type.Name()\<close>: the name of a defined or predeclared type, empty for a literal.\<close>

fun nameOf :: "gotype \<Rightarrow> string" where
  "nameOf (Named p n) = n"
| "nameOf (Basic k) = kindName k"
| "nameOf t = []"

definition enumsOf :: "tyenv \<Rightarrow> gotype \<Rightarrow> (string \<times> goval) list option" where
  "enumsOf env t = (case t of Named p n \<Rightarrow> td_enums (env (p, n)) | _ \<Rightarrow> None)"

text \<open>
  Models reach the engine as zero values (\<^verbatim>\<open>T{}\<close>, or what \<^verbatim>\<open>reflect.New\<close> makes),
  so a value is given by its type: \<open>Some t\<close> is the zero value of \<open>t\<close>, and \<open>None\<close>
  is the nil interface, for which \<^verbatim>\<open>reflect.TypeOf\<close> is nil. \<open>zeroIface\<close> is
  \<^verbatim>\<open>v.Interface()\<close> for the zero \<^verbatim>\<open>reflect.Value\<close> of static type \<open>t\<close>: an
  interface-typed value holds nil.
\<close>

definition zeroIface :: "tyenv \<Rightarrow> gotype \<Rightarrow> gotype option" where
  "zeroIface env t = (if kindOf env t = Interface then None else Some t)"

section \<open>Schemas (kin-openapi's \<^verbatim>\<open>openapi3.Schema\<close>)\<close>

text \<open>
  The fields of \<^verbatim>\<open>openapi3.Schema\<close> the engine touches. \<open>s_type\<close> is \<^verbatim>\<open>Type\<close>
  (nil or one type name), \<open>s_min\<close> is \<^verbatim>\<open>Min *float64\<close>, \<open>s_varnames\<close> is the
  \<^verbatim>\<open>x-enum-varnames\<close> extension of \<^verbatim>\<open>Discriminator\<close>, \<open>s_ap_has\<close> and
  \<open>s_ap_schema\<close> are \<^verbatim>\<open>AdditionalProperties.Has\<close> and \<^verbatim>\<open>.Schema\<close>.
  \<^verbatim>\<open>Properties\<close> is a Go map: an association list updated with \<open>AList.update\<close>.
  A \<open>schemaref\<close> is \<^verbatim>\<open>openapi3.SchemaRef\<close>: \<^verbatim>\<open>Ref\<close> and \<^verbatim>\<open>Value\<close> (nil is \<open>None\<close>).
\<close>

datatype schema = Schema
  (s_type: "string option")
  (s_format: string)
  (s_title: string)
  (s_description: string)
  (s_default: "string option")
  (s_min: "real option")
  (s_enum: "goval list")
  (s_varnames: "string list option")
  (s_required: "string list")
  (s_properties: "(string \<times> schemaref) list")
  (s_items: "schemaref option")
  (s_ap_has: "bool option")
  (s_ap_schema: "schemaref option")
and schemaref = SchemaRef (r_ref: string) (r_value: "schema option")

primrec set_type :: "string option \<Rightarrow> schema \<Rightarrow> schema" where
  "set_type x (Schema ty fm ti de df mn en vn rq pr it ah ap) = Schema x fm ti de df mn en vn rq pr it ah ap"

primrec set_format :: "string \<Rightarrow> schema \<Rightarrow> schema" where
  "set_format x (Schema ty fm ti de df mn en vn rq pr it ah ap) = Schema ty x ti de df mn en vn rq pr it ah ap"

primrec set_title :: "string \<Rightarrow> schema \<Rightarrow> schema" where
  "set_title x (Schema ty fm ti de df mn en vn rq pr it ah ap) = Schema ty fm x de df mn en vn rq pr it ah ap"

primrec set_description :: "string \<Rightarrow> schema \<Rightarrow> schema" where
  "set_description x (Schema ty fm ti de df mn en vn rq pr it ah ap) = Schema ty fm ti x df mn en vn rq pr it ah ap"

primrec set_default :: "string option \<Rightarrow> schema \<Rightarrow> schema" where
  "set_default x (Schema ty fm ti de df mn en vn rq pr it ah ap) = Schema ty fm ti de x mn en vn rq pr it ah ap"

primrec set_min :: "real option \<Rightarrow> schema \<Rightarrow> schema" where
  "set_min x (Schema ty fm ti de df mn en vn rq pr it ah ap) = Schema ty fm ti de df x en vn rq pr it ah ap"

primrec set_enum :: "goval list \<Rightarrow> schema \<Rightarrow> schema" where
  "set_enum x (Schema ty fm ti de df mn en vn rq pr it ah ap) = Schema ty fm ti de df mn x vn rq pr it ah ap"

primrec set_varnames :: "string list option \<Rightarrow> schema \<Rightarrow> schema" where
  "set_varnames x (Schema ty fm ti de df mn en vn rq pr it ah ap) = Schema ty fm ti de df mn en x rq pr it ah ap"

primrec set_required :: "string list \<Rightarrow> schema \<Rightarrow> schema" where
  "set_required x (Schema ty fm ti de df mn en vn rq pr it ah ap) = Schema ty fm ti de df mn en vn x pr it ah ap"

primrec set_properties :: "(string \<times> schemaref) list \<Rightarrow> schema \<Rightarrow> schema" where
  "set_properties x (Schema ty fm ti de df mn en vn rq pr it ah ap) = Schema ty fm ti de df mn en vn rq x it ah ap"

primrec set_items :: "schemaref option \<Rightarrow> schema \<Rightarrow> schema" where
  "set_items x (Schema ty fm ti de df mn en vn rq pr it ah ap) = Schema ty fm ti de df mn en vn rq pr x ah ap"

primrec set_additional :: "bool option \<Rightarrow> schemaref option \<Rightarrow> schema \<Rightarrow> schema" where
  "set_additional h x (Schema ty fm ti de df mn en vn rq pr it ah ap) = Schema ty fm ti de df mn en vn rq pr it h x"

text \<open>\<^verbatim>\<open>schema.Properties[name] = ref\<close> and \<^verbatim>\<open>schema.Required = append(schema.Required, name)\<close>.\<close>

definition put_property :: "string \<Rightarrow> schemaref \<Rightarrow> schema \<Rightarrow> schema" where
  "put_property name r s = set_properties (AList.update name r (s_properties s)) s"

definition add_required :: "string \<Rightarrow> schema \<Rightarrow> schema" where
  "add_required name s = set_required (s_required s @ [name]) s"

text \<open>The constructors of \<^verbatim>\<open>openapi3\<close> the engine calls.\<close>

definition emptySchema :: schema where
  "emptySchema = Schema None [] [] [] None None [] None [] [] None None None"

definition NewIntegerSchema :: schema where
  "NewIntegerSchema = set_type (Some ''integer'') emptySchema"

definition NewInt32Schema :: schema where
  "NewInt32Schema = set_format ''int32'' (set_type (Some ''integer'') emptySchema)"

definition NewInt64Schema :: schema where
  "NewInt64Schema = set_format ''int64'' (set_type (Some ''integer'') emptySchema)"

definition NewFloat64Schema :: schema where
  "NewFloat64Schema = set_type (Some ''number'') emptySchema"

definition NewStringSchema :: schema where
  "NewStringSchema = set_type (Some ''string'') emptySchema"

definition NewDateTimeSchema :: schema where
  "NewDateTimeSchema = set_format ''date-time'' (set_type (Some ''string'') emptySchema)"

definition NewBytesSchema :: schema where
  "NewBytesSchema = set_format ''byte'' (set_type (Some ''string'') emptySchema)"

definition NewBoolSchema :: schema where
  "NewBoolSchema = set_type (Some ''boolean'') emptySchema"

definition NewArraySchema :: schema where
  "NewArraySchema = set_type (Some ''array'') emptySchema"

definition NewObjectSchema :: schema where
  "NewObjectSchema = set_type (Some ''object'') emptySchema"

definition NewSchemaRef :: "string \<Rightarrow> schema option \<Rightarrow> schemaref" where
  "NewSchemaRef ref v = SchemaRef ref v"

section \<open>Panics and results\<close>

text \<open>
  Every panic of the source is an error value. A call that does not return (unbounded
  recursion, which Go ends with a fatal stack overflow) is \<open>None\<close>: the recursive
  functions below take the number of nested calls they may still make.
\<close>

datatype error =
    TagSyntax
  | InvalidEnumType string kind
  | InvalidEnumVal string goval
  | EnumInvalidValue string goval
  | UnexportedField string
  | NilDereference
  | NumFieldOfNonStruct

type_synonym 'a result = "(error + 'a) option"

section \<open>Type classifier\<close>

text \<open>\<^verbatim>\<open>getBasicSchemaByType\<close>; the result \<open>None\<close> is the nil \<^verbatim>\<open>*openapi3.Schema\<close>.\<close>

definition getBasicSchemaByType :: "kind \<Rightarrow> schema option" where
  "getBasicSchemaByType typ =
    (if typ \<in> {IntK, Int8, Int16} then Some NewIntegerSchema
     else if typ \<in> {Uint, Uint8, Uint16} then Some (set_min (Some 0) NewIntegerSchema)
     else if typ = Int32 then Some NewInt32Schema
     else if typ = Uint32 then Some (set_min (Some 0) NewInt32Schema)
     else if typ = Int64 then Some NewInt64Schema
     else if typ = Uint64 then Some (set_min (Some 0) NewInt64Schema)
     else if typ = String then Some NewStringSchema
     else if typ = Float32 then Some (set_format ''float'' NewFloat64Schema)
     else if typ = Float64 then Some (set_format ''double'' NewFloat64Schema)
     else if typ = Bool then Some NewBoolSchema
     else None)"

text \<open>\<^verbatim>\<open>NewEnumSchema\<close>: panics on a kind outside its switch.\<close>

definition NewEnumSchema :: "string \<Rightarrow> kind \<Rightarrow> error + schema" where
  "NewEnumSchema name k =
    (if k = Bool then Inr NewBoolSchema
     else if k \<in> {Int8, Int16, IntK, Uint8, Uint16, Uint} then Inr NewIntegerSchema
     else if k \<in> {Int32, Uint32} then Inr NewInt32Schema
     else if k \<in> {Int64, Uint64} then Inr NewInt64Schema
     else if k = Float32 then Inr (set_format ''float'' NewFloat64Schema)
     else if k = Float64 then Inr (set_format ''double'' NewFloat64Schema)
     else if k = String then Inr NewStringSchema
     else Inl (InvalidEnumType name k))"

text \<open>
  \<^verbatim>\<open>GetEnumVal\<close>: converts with \<^verbatim>\<open>gconv\<close> (a library outside the repository, taken
  as the parameter \<open>gconv\<close>: the conversion to a kind), panics on a kind outside its switch.
\<close>

definition GetEnumVal :: "(kind \<Rightarrow> goval \<Rightarrow> goval) \<Rightarrow> string \<Rightarrow> kind \<Rightarrow> goval \<Rightarrow> error + goval" where
  "GetEnumVal gconv name k v =
    (if k \<in> {Bool, Int8, Int16, IntK, Uint8, Uint16, Uint, Int32, Uint32, Int64, Uint64,
              Float32, Float64, String}
     then Inr (gconv k v)
     else Inl (InvalidEnumVal name v))"

section \<open>Names, references and paths\<close>

definition generateRefName :: "string \<Rightarrow> string" where
  "generateRefName structName = ''#/components/schemas/'' @ structName"

text \<open>\<^verbatim>\<open>strings.Split(s, sep)\<close> for a one-byte separator: never the empty list.\<close>

fun split_on :: "char \<Rightarrow> string \<Rightarrow> string list" where
  "split_on c [] = [[]]"
| "split_on c (x # xs) =
    (if x = c then [] # split_on c xs
     else (case split_on c xs of [] \<Rightarrow> [[x]] | y # ys \<Rightarrow> (x # y) # ys))"

definition HasSuffixChar :: "string \<Rightarrow> char \<Rightarrow> bool" where
  "HasSuffixChar s c = (s \<noteq> [] \<and> last s = c)"

definition TrimSuffixChar :: "string \<Rightarrow> char \<Rightarrow> string" where
  "TrimSuffixChar s c = (if HasSuffixChar s c then butlast s else s)"

definition removePackageName :: "string \<Rightarrow> string" where
  "removePackageName name =
    (if \<not> HasSuffixChar name (CHR '']'') then last (split_on (CHR ''.'') name)
     else TrimSuffixChar (last (split_on (CHR ''.'') name)) (CHR '']'')
          @ hd (split_on (CHR ''['') name))"



section \<open>Tags\<close>

definition DEFAULT :: string where "DEFAULT = ''default''"
definition VALIDATE :: string where "VALIDATE = ''validate''"
definition DESCRIPTION :: string where "DESCRIPTION = ''description''"
definition FORM :: string where "FORM = ''form''"
definition JSON :: string where "JSON = ''json''"

text \<open>\<^verbatim>\<open>tags.Get(key)\<close>: the \<^verbatim>\<open>Name\<close> of the first tag with that key, or the error (\<open>None\<close>).\<close>

definition tagsGet :: "(string \<times> string) list \<Rightarrow> string \<Rightarrow> string option" where
  "tagsGet tags key = map_of tags key"

definition isRequiredTags :: "(string \<times> string) list \<Rightarrow> bool" where
  "isRequiredTags tags =
    (case tagsGet tags VALIDATE of
       Some name \<Rightarrow> ''required'' \<in> set (split_on (CHR '','') name)
     | None \<Rightarrow> False)"

definition isBuiltinType :: "kind \<Rightarrow> bool" where
  "isBuiltinType k = (k \<in> {Bool, IntK, Int8, Int16, Int32, Int64,
      Uint, Uint8, Uint16, Uint32, Uint64, Uintptr,
      Float32, Float64, Complex64, Complex128, String, UnsafePointer})"

section \<open>The state: component registry and registered coercions\<close>

text \<open>
  The closure that the enum path hands to \<^verbatim>\<open>router.Validate.RegisterCustomTypeFunc\<close>
  captures the type's name, its kind and \<^verbatim>\<open>valMap\<close> (the set of enum members).
\<close>

datatype customFunc = EnumCoercion string kind "goval list"

definition runCustomFunc :: "(kind \<Rightarrow> goval \<Rightarrow> goval) \<Rightarrow> customFunc \<Rightarrow> goval \<Rightarrow> error + goval" where
  "runCustomFunc gconv f v =
    (case f of EnumCoercion name k valMap \<Rightarrow>
       if v \<in> set valMap then GetEnumVal gconv name k v else Inl (EnumInvalidValue name v))"

text \<open>
  \<open>Schemas\<close> is \<^verbatim>\<open>swagger.OpenAPI.Components.Schemas\<close> (a Go map, nil or empty is
  \<open>[]\<close>); \<open>CustomFuncs\<close> is the validator's table of custom type functions, keyed by
  the type they are registered for.
\<close>

record Swagger =
  Schemas :: "(string \<times> schemaref) list"
  CustomFuncs :: "(gotype \<times> customFunc) list"

definition RegisterCustomTypeFunc :: "customFunc \<Rightarrow> goval list \<Rightarrow> Swagger \<Rightarrow> Swagger" where
  "RegisterCustomTypeFunc fn types st =
     st\<lparr>CustomFuncs := fold (\<lambda>t fs. AList.update (dyn_type t) fn fs) types (CustomFuncs st)\<rparr>"

definition checkSchemaExist :: "Swagger \<Rightarrow> string \<Rightarrow> bool" where
  "checkSchemaExist st name =
     list_ex (\<lambda>(k, r). case r_value r of Some s \<Rightarrow> s_title s = name | None \<Rightarrow> False) (Schemas st)"

definition putSchema :: "string \<Rightarrow> schemaref \<Rightarrow> Swagger \<Rightarrow> Swagger" where
  "putSchema key r st = st\<lparr>Schemas := AList.update key r (Schemas st)\<rparr>"

text \<open>
  The schema the enum path returns is the object it has just stored in the registry, so
  what the caller then assigns through the pointer (\<^verbatim>\<open>fieldSchema.Description = ...\<close>)
  changes the registry entry too. The walker returns, beside \<^verbatim>\<open>ref\<close> and \<^verbatim>\<open>schema\<close>,
  the registry key whose entry is that same object (\<open>None\<close> for a fresh schema), and
  \<open>assign\<close> is an assignment to a field of the returned schema.
\<close>

definition mutate :: "string option \<Rightarrow> (schema \<Rightarrow> schema) \<Rightarrow> Swagger \<Rightarrow> Swagger" where
  "mutate alias f st =
    (case alias of
       None \<Rightarrow> st
     | Some key \<Rightarrow> st\<lparr>Schemas :=
         AList.map_entry key (\<lambda>r. SchemaRef (r_ref r) (map_option f (r_value r))) (Schemas st)\<rparr>)"

definition assign :: "string option \<Rightarrow> (schema \<Rightarrow> schema) \<Rightarrow> schema \<times> Swagger \<Rightarrow> schema \<times> Swagger" where
  "assign alias f p = (f (fst p), mutate alias f (snd p))"

text \<open>The description and default tags overwrite the attributes of a field's schema.\<close>

definition descDefault :: "(string \<times> string) list \<Rightarrow> string option \<Rightarrow> schema \<times> Swagger \<Rightarrow> schema \<times> Swagger" where
  "descDefault tags alias p =
    (let p1 = (case tagsGet tags DESCRIPTION of Some d \<Rightarrow> assign alias (set_description d) p | None \<Rightarrow> p)
     in (case tagsGet tags DEFAULT of Some d \<Rightarrow> assign alias (set_default (Some d)) p1 | None \<Rightarrow> p1))"

text \<open>Sequencing of calls that may panic or not return, and the loop over a field list.\<close>

definition bindR :: "'a result \<Rightarrow> ('a \<Rightarrow> 'b result) \<Rightarrow> 'b result" where
  "bindR m k = (case m of None \<Rightarrow> None | Some (Inl e) \<Rightarrow> Some (Inl e) | Some (Inr x) \<Rightarrow> k x)"

fun foldR :: "('s \<Rightarrow> 'a \<Rightarrow> 's result) \<Rightarrow> 'a list \<Rightarrow> 's \<Rightarrow> 's result" where
  "foldR f [] s = Some (Inr s)"
| "foldR f (x # xs) s = bindR (f s x) (foldR f xs)"

section \<open>Value/type walker\<close>

text \<open>What the walker returns: \<^verbatim>\<open>ref\<close>, \<^verbatim>\<open>schema\<close>, the registry key aliasing it, the state.\<close>

type_synonym walked = "string \<times> schema \<times> string option \<times> Swagger"

text \<open>The types the type switch of \<^verbatim>\<open>getSchemaByValue\<close> names.\<close>

definition TimeT :: gotype where
  "TimeT = Named ''time'' ''Time''"

definition FileHeaderT :: gotype where
  "FileHeaderT = Named ''mime/multipart'' ''FileHeader''"

text \<open>
  \<^verbatim>\<open>case EnumAble\<close>: a defined type with the method, or a pointer to one (the method
  set of \<^verbatim>\<open>*T\<close> holds the value-receiver methods of \<^verbatim>\<open>T\<close>).
\<close>

definition isEnumAble :: "tyenv \<Rightarrow> gotype \<Rightarrow> bool" where
  "isEnumAble env t = (case t of
      PtrTo u \<Rightarrow> enumsOf env u \<noteq> None
    | _ \<Rightarrow> enumsOf env t \<noteq> None)"

text \<open>
  The enum path. On a nil \<^verbatim>\<open>*T\<close> the call \<^verbatim>\<open>val.Enums()\<close> dereferences nil.
  The loop \<^verbatim>\<open>for name, enum := range val.Enums()\<close> ranges over a Go map, and Go does not
  fix the order in which a map is ranged over: \<open>valEnums\<close> is the map in the order of one
  iteration, and \<open>enums\<close> and \<open>names\<close> come in that order.
\<close>

definition enumSchema :: "tyenv \<Rightarrow> Swagger \<Rightarrow> gotype \<Rightarrow> walked result" where
  "enumSchema env st t =
    (case enumsOf env t of
       None \<Rightarrow> Some (Inl NilDereference)
     | Some valEnums \<Rightarrow>
        (let name = nameOf t;
             enums = map snd valEnums;
             names = map fst valEnums
         in case NewEnumSchema name (kindOf env t) of
              Inl e \<Rightarrow> Some (Inl e)
            | Inr s0 \<Rightarrow>
               (let schema = set_varnames (Some names) (set_enum enums (set_title name s0));
                    st1 = putSchema name (NewSchemaRef [] (Some schema)) st;
                    st2 = RegisterCustomTypeFunc (EnumCoercion name (kindOf env t) enums) enums st1
                in Some (Inr (generateRefName name, schema, Some name, st2)))))"

text \<open>The result for a nil model (\<^verbatim>\<open>reflect.TypeOf(model) == nil\<close>).\<close>

definition nilModelSchema :: schema where
  "nilModelSchema = set_items (Some (SchemaRef [] (Some NewObjectSchema))) NewObjectSchema"

text \<open>
  \<open>derefType\<close> is \<^verbatim>\<open>if type_.Kind() == reflect.Ptr { type_ = type_.Elem() }\<close>.
\<close>

definition derefType :: "tyenv \<Rightarrow> gotype \<Rightarrow> gotype" where
  "derefType env t = (if kindOf env t = Ptr then elemOf env t else t)"

text \<open>
  The body of the field loop of \<^verbatim>\<open>getRequestSchemaByModel\<close>; \<open>walk\<close> is the call
  \<^verbatim>\<open>swagger.getSchemaByValue(_, true)\<close>. A nil pointer field is replaced by a fresh
  value; \<^verbatim>\<open>fieldvalue.Interface()\<close> panics on any other unexported field.
\<close>

definition requestField ::
  "(Swagger \<Rightarrow> gotype option \<Rightarrow> walked result) \<Rightarrow> tyenv \<Rightarrow> schema \<times> Swagger \<Rightarrow> StructField
    \<Rightarrow> (schema \<times> Swagger) result" where
  "requestField walk env acc field =
    (case fld_tag field of
       None \<Rightarrow> Some (Inl TagSyntax)
     | Some tags \<Rightarrow>
        (case tagsGet tags FORM of
           None \<Rightarrow> Some (Inr acc)
         | Some tagName \<Rightarrow>
            (let fieldType = derefType env (fld_type field) in
             if kindOf env (fld_type field) \<noteq> Ptr \<and> \<not> fld_exported field
             then Some (Inl (UnexportedField (fld_name field)))
             else bindR (walk (snd acc) (zeroIface env fieldType))
               (\<lambda>(fieldRef, fieldSchema, alias, st1).
                  let (fieldSchema', st2) = descDefault tags alias (fieldSchema, st1)
                  in Some (Inr (put_property tagName (NewSchemaRef fieldRef (Some fieldSchema')) (fst acc),
                                st2))))))"

text \<open>
  The body of the field loop of \<^verbatim>\<open>getResponseSchemaByModel\<close>; \<open>walk\<close> is the call
  \<^verbatim>\<open>swagger.getSchemaByValue(_, false)\<close>.
\<close>

definition responseField ::
  "(Swagger \<Rightarrow> gotype option \<Rightarrow> walked result) \<Rightarrow> tyenv \<Rightarrow> schema \<times> Swagger \<Rightarrow> StructField
    \<Rightarrow> (schema \<times> Swagger) result" where
  "responseField walk env acc field =
    (if fld_exported field
     then bindR (walk (snd acc) (zeroIface env (fld_type field)))
       (\<lambda>(fieldRef, fieldSchema, alias, st1).
          case fld_tag field of
            None \<Rightarrow> Some (Inl TagSyntax)
          | Some tags \<Rightarrow>
             (case tagsGet tags JSON of
                None \<Rightarrow> Some (Inr (fst acc, st1))
              | Some tagName \<Rightarrow>
                 (let schema1 = (if isRequiredTags tags then add_required tagName (fst acc) else fst acc);
                      (fieldSchema', st2) = descDefault tags alias (fieldSchema, st1)
                  in Some (Inr (put_property tagName (NewSchemaRef fieldRef (Some fieldSchema')) schema1,
                                st2)))))
     else Some (Inr acc))"

text \<open>
  The three mutually recursive functions. The first argument bounds the depth of nested
  calls; \<open>None\<close> is a call that needs more.
\<close>

fun getSchemaByValue :: "nat \<Rightarrow> tyenv \<Rightarrow> Swagger \<Rightarrow> gotype option \<Rightarrow> bool \<Rightarrow> walked result"
and getRequestSchemaByModel :: "nat \<Rightarrow> tyenv \<Rightarrow> Swagger \<Rightarrow> gotype option \<Rightarrow> walked result"
and getResponseSchemaByModel :: "nat \<Rightarrow> tyenv \<Rightarrow> Swagger \<Rightarrow> gotype option \<Rightarrow> walked result"
where
  "getSchemaByValue 0 env st t request = None"
| "getSchemaByValue (Suc n) env st t request =
    (if t \<in> {Some (Basic IntK), Some (Basic Int8), Some (Basic Int16)}
       then Some (Inr ([], NewIntegerSchema, None, st))
     else if t \<in> {Some (Basic Uint), Some (Basic Uint8), Some (Basic Uint16)}
       then Some (Inr ([], set_min (Some 0) NewIntegerSchema, None, st))
     else if t = Some (Basic Int32) then Some (Inr ([], NewInt32Schema, None, st))
     else if t = Some (Basic Uint32) then Some (Inr ([], set_min (Some 0) NewInt32Schema, None, st))
     else if t = Some (Basic Int64) then Some (Inr ([], NewInt64Schema, None, st))
     else if t = Some (Basic Uint64) then Some (Inr ([], set_min (Some 0) NewInt64Schema, None, st))
     else if t = Some (Basic String) then Some (Inr ([], NewStringSchema, None, st))
     else if t = Some TimeT then Some (Inr ([], NewDateTimeSchema, None, st))
     else if t = Some (Basic Float32) then Some (Inr ([], set_format ''float'' NewFloat64Schema, None, st))
     else if t = Some (Basic Float64) then Some (Inr ([], set_format ''double'' NewFloat64Schema, None, st))
     else if t = Some (Basic Bool) then Some (Inr ([], NewBoolSchema, None, st))
     else if t = Some (SliceOf (Basic Uint8)) then Some (Inr ([], NewBytesSchema, None, st))
     else if t = Some (PtrTo FileHeaderT)
       then Some (Inr ([], set_format ''binary'' NewStringSchema, None, st))
     else if t = Some (SliceOf (PtrTo FileHeaderT))
       then Some (Inr ([], set_items (Some (SchemaRef []
              (Some (set_format ''binary'' (set_type (Some ''string'') emptySchema))))) NewArraySchema,
              None, st))
     else if (case t of Some ty \<Rightarrow> isEnumAble env ty | None \<Rightarrow> False)
       then (case t of Some ty \<Rightarrow> enumSchema env st ty | None \<Rightarrow> None)
     else if request then getRequestSchemaByModel n env st t
     else getResponseSchemaByModel n env st t)"
| "getRequestSchemaByModel 0 env st model = None"
| "getRequestSchemaByModel (Suc n) env st model =
    (case model of
       None \<Rightarrow> Some (Inr ([], nilModelSchema, None, st))
     | Some ty0 \<Rightarrow>
        (let type' = derefType env ty0 in
         if kindOf env type' = Struct then
           bindR (foldR (requestField (\<lambda>s v. getSchemaByValue n env s v True) env)
                    (fieldsOf env type') (NewObjectSchema, st))
             (\<lambda>(schema, st'). Some (Inr ([], schema, None, st')))
         else if kindOf env type' = Slice then
           bindR (getRequestSchemaByModel n env st (zeroIface env (elemOf env type')))
             (\<lambda>(ref, refSchema, alias, st').
                Some (Inr ([], set_items (Some (SchemaRef ref (Some refSchema))) NewArraySchema, None, st')))
         else if kindOf env type' = Map then
           bindR (getRequestSchemaByModel n env st (zeroIface env (elemOf env type')))
             (\<lambda>(ref, refSchema, alias, st').
                Some (Inr ([], set_items (Some (SchemaRef ref (Some refSchema))) NewObjectSchema, None, st')))
         else getSchemaByValue n env st model True))"
| "getResponseSchemaByModel 0 env st model = None"
| "getResponseSchemaByModel (Suc n) env st model =
    (case model of
       None \<Rightarrow> Some (Inr ([], nilModelSchema, None, st))
     | Some ty0 \<Rightarrow>
        (let type' = derefType env ty0 in
         if kindOf env type' = Struct then
           bindR (foldR (responseField (\<lambda>s v. getSchemaByValue n env s v False) env)
                    (fieldsOf env type') (NewObjectSchema, st))
             (\<lambda>(schema, st'). Some (Inr (generateRefName (nameOf type'), schema, None, st')))
         else if kindOf env type' = Slice then
           bindR (getResponseSchemaByModel n env st (zeroIface env (elemOf env type')))
             (\<lambda>(ref, schemaRef, alias, st').
                Some (Inr ([], set_items (Some (SchemaRef ref (Some schemaRef))) NewArraySchema, None, st')))
         else if kindOf env type' = Map then
           bindR (getResponseSchemaByModel n env st (zeroIface env (elemOf env type')))
             (\<lambda>(ref, schemaRef, alias, st').
                Some (Inr ([], set_items (Some (SchemaRef ref (Some schemaRef))) NewObjectSchema, None, st')))
         else getSchemaByValue n env st
                (if kindOf env ty0 = Ptr then zeroIface env type' else model) False))"

section \<open>Parameter extractor\<close>








section \<open>Component registry\<close>

text \<open>
  The name under which a field enters the parent's properties: the \<^verbatim>\<open>form\<close> name for
  a request, and for a response the \<^verbatim>\<open>json\<close> name if there is one, else the name of
  the Go field.
\<close>

definition componentFieldName :: "bool \<Rightarrow> (string \<times> string) list \<Rightarrow> StructField \<Rightarrow> string" where
  "componentFieldName isRequest tags field =
    (if isRequest then (case tagsGet tags FORM of Some tagName \<Rightarrow> tagName | None \<Rightarrow> fld_name field)
     else (case tagsGet tags JSON of Some jsonName \<Rightarrow> jsonName | None \<Rightarrow> fld_name field))"

text \<open>
  \<open>ensureComponent\<close> is
  \<^verbatim>\<open>if !swagger.checkSchemaExist(name) { swagger.getComponentByModel(model, isRequest) }\<close>;
  \<open>recurse\<close> is the recursive call.
\<close>

definition ensureComponent ::
  "(Swagger \<Rightarrow> gotype option \<Rightarrow> Swagger result) \<Rightarrow> Swagger \<Rightarrow> string \<Rightarrow> gotype option \<Rightarrow> Swagger result" where
  "ensureComponent recurse st name model =
    (if \<not> checkSchemaExist st name then recurse st model else Some (Inr st))"

text \<open>
  The body of the field loop of \<^verbatim>\<open>getComponentByModel\<close>; \<open>walk\<close> is
  \<^verbatim>\<open>swagger.getSchemaByValue(_, isRequest)\<close>. \<open>readonly\<close> says that
  \<^verbatim>\<open>fieldvalue.Interface()\<close> panics: the field is unexported and was not replaced by
  a fresh value.
\<close>

definition componentField ::
  "(Swagger \<Rightarrow> gotype option \<Rightarrow> walked result) \<Rightarrow> (Swagger \<Rightarrow> gotype option \<Rightarrow> Swagger result)
    \<Rightarrow> tyenv \<Rightarrow> bool \<Rightarrow> schema \<times> Swagger \<Rightarrow> StructField \<Rightarrow> (schema \<times> Swagger) result" where
  "componentField walk recurse env isRequest acc field =
    (case fld_tag field of
       None \<Rightarrow> Some (Inl TagSyntax)
     | Some tags \<Rightarrow>
        if tagsGet tags FORM = None \<and> isRequest then Some (Inr acc)
        else
         (let fieldType = derefType env (fld_type field);
              readonly = (kindOf env (fld_type field) \<noteq> Ptr \<and> \<not> fld_exported field);
              fieldName = componentFieldName isRequest tags field;
              schema1 = (if isRequiredTags tags then add_required fieldName (fst acc) else fst acc);
              st = snd acc
          in
          if kindOf env fieldType = Struct then
            (if nameOf fieldType = ''Time'' then
               (if readonly then Some (Inl (UnexportedField (fld_name field)))
                else bindR (walk st (zeroIface env fieldType))
                  (\<lambda>(fieldRef, fieldSchema, alias, st1).
                     let (fieldSchema', st2) =
                           assign alias (\<lambda>s. set_type (Some ''string'') (set_format ''date-time'' s))
                             (fieldSchema, st1)
                     in Some (Inr (put_property fieldName (NewSchemaRef fieldRef (Some fieldSchema')) schema1,
                                   st2))))
             else bindR (ensureComponent recurse st (nameOf fieldType) (Some fieldType))
               (\<lambda>st1. Some (Inr (put_property fieldName
                                    (NewSchemaRef (generateRefName (nameOf fieldType)) None) schema1,
                                  st1))))
          else if kindOf env fieldType = Slice then
            (if readonly then Some (Inl (UnexportedField (fld_name field)))
             else bindR (walk st (zeroIface env fieldType))
               (\<lambda>(fieldRef, fieldSchema, alias, st1).
                  let elemType = elemOf env fieldType in
                  if \<not> isBuiltinType (kindOf env elemType) then
                    (if kindOf env elemType = Interface then Some (Inl NilDereference)
                     else
                      (let subFieldType = derefType env elemType in
                       bindR (ensureComponent recurse st1 (nameOf subFieldType) (Some elemType))
                         (\<lambda>st2.
                            let (fieldSchema', st3) =
                                  assign alias
                                    (set_items (Some (NewSchemaRef (generateRefName (nameOf subFieldType)) None)))
                                    (fieldSchema, st2)
                            in Some (Inr (put_property fieldName
                                            (NewSchemaRef fieldRef (Some fieldSchema')) schema1,
                                          st3)))))
                  else
                    (let (fieldSchema', st2) = descDefault tags alias (fieldSchema, st1)
                     in Some (Inr (put_property fieldName (NewSchemaRef fieldRef (Some fieldSchema')) schema1,
                                   st2)))))
          else if kindOf env fieldType = Map then
            (let mapValueType = elemOf env fieldType in
             if kindOf env mapValueType = Interface then
               Some (Inr (put_property fieldName
                            (NewSchemaRef [] (Some (set_additional (Some True) None NewObjectSchema))) schema1,
                          st))
             else if kindOf env mapValueType = Struct then
               bindR (ensureComponent recurse st (nameOf mapValueType) (Some mapValueType))
                 (\<lambda>st1. Some (Inr (put_property fieldName
                      (NewSchemaRef [] (Some (set_additional None
                          (Some (NewSchemaRef (generateRefName (nameOf mapValueType)) None)) NewObjectSchema)))
                      schema1, st1)))
             else
               Some (Inr (put_property fieldName
                      (NewSchemaRef [] (Some (set_additional None
                          (Some (NewSchemaRef [] (getBasicSchemaByType (kindOf env mapValueType))))
                          NewObjectSchema)))
                      schema1, st)))
          else if kindOf env fieldType = Interface then
            Some (Inr (put_property fieldName (NewSchemaRef [] (Some NewObjectSchema)) schema1, st))
          else
            (if readonly then Some (Inl (UnexportedField (fld_name field)))
             else bindR (walk st (zeroIface env fieldType))
               (\<lambda>(fieldRef, fieldSchema, alias, st1).
                  let (fieldSchema', st2) = descDefault tags alias (fieldSchema, st1)
                  in Some (Inr (put_property fieldName (NewSchemaRef fieldRef (Some fieldSchema')) schema1,
                                st2))))))"

text \<open>
  \<^verbatim>\<open>getComponentByModel\<close>: the loop over the fields, then the insertion under the title.
\<close>

fun getComponentByModel :: "nat \<Rightarrow> tyenv \<Rightarrow> Swagger \<Rightarrow> gotype option \<Rightarrow> bool \<Rightarrow> Swagger result" where
  "getComponentByModel 0 env st model isRequest = None"
| "getComponentByModel (Suc n) env st model isRequest =
    (case model of
       None \<Rightarrow> Some (Inr st)
     | Some ty0 \<Rightarrow>
        (let type' = derefType env ty0 in
         bindR (if kindOf env type' = Struct
                then foldR (componentField (\<lambda>s v. getSchemaByValue n env s v isRequest)
                              (\<lambda>s v. getComponentByModel n env s v isRequest) env isRequest)
                       (fieldsOf env type') (NewObjectSchema, st)
                else Some (Inr (NewObjectSchema, st)))
           (\<lambda>(schema, st').
              let title = removePackageName (nameOf type')
              in Some (Inr (putSchema title (SchemaRef [] (Some (set_title title schema))) st')))))"


section \<open>Example models\<close>

text \<open>
  The declarations used to run the engine on concrete models:
  \<^verbatim>\<open>type Node struct { Next *Node `json:"next"` }\<close>;
  \<^verbatim>\<open>type A struct { B *B `json:"b"` }\<close> and \<^verbatim>\<open>type B struct { A *A `json:"a"` }\<close>;
  \<^verbatim>\<open>type Reply struct { Code int `json:"code"`; Note string }\<close>;
  \<^verbatim>\<open>type Search struct { Term string `query:"q" header:"X-Term"`; Page int; Limit int `query:"limit"` }\<close>;
  \<^verbatim>\<open>type Color int\<close> with \<^verbatim>\<open>Enums()\<close> returning \<^verbatim>\<open>{"A": Color(1), "B": Color(2)}\<close>;
  \<^verbatim>\<open>type Paint struct { Tone Color `json:"tone"` }\<close>;
  \<^verbatim>\<open>type X struct { N int `json:"n"` }\<close>, \<^verbatim>\<open>type Y struct { S string `json:"s"` }\<close> and
  \<^verbatim>\<open>type Z struct { B bool `json:"b"` }\<close>;
  the generic \<^verbatim>\<open>type Pair[K any, V any] struct { First K `json:"first"`; Second V `json:"second"` }\<close>
  with its instantiations \<^verbatim>\<open>Pair[X, Z]\<close> and \<^verbatim>\<open>Pair[Y, Z]\<close>, whose \<^verbatim>\<open>Name()\<close> in package
  \<^verbatim>\<open>main\<close> is \<^verbatim>\<open>Pair[main.X,main.Z]\<close> and \<^verbatim>\<open>Pair[main.Y,main.Z]\<close>;
  \<^verbatim>\<open>type Holder struct { G Pair[Y, Z] `json:"g"` }\<close> and
  \<^verbatim>\<open>type Top struct { H Pair[X, Z] `json:"h"`; F Holder `json:"f"` }\<close>;
  \<^verbatim>\<open>type Wire struct { Pipes map[string]chan int `json:"pipes"` }\<close>.
\<close>

definition mkField :: "string \<Rightarrow> gotype \<Rightarrow> (string \<times> string) list \<Rightarrow> StructField" where
  "mkField name t tags = \<lparr>fld_name = name, fld_type = t, fld_tag = Some tags, fld_exported = True\<rparr>"

definition structInfo :: "StructField list \<Rightarrow> typeinfo" where
  "structInfo fs = \<lparr>td_shape = StructOf fs, td_enums = None\<rparr>"

definition ColorT :: gotype where
  "ColorT = Named ''main'' ''Color''"

definition exampleEnv :: tyenv where
  "exampleEnv = (\<lambda>(pkg, name).
     if name = ''Node'' then structInfo [mkField ''Next'' (PtrTo (Named ''main'' ''Node'')) [(''json'', ''next'')]]
     else if name = ''A'' then structInfo [mkField ''B'' (PtrTo (Named ''main'' ''B'')) [(''json'', ''b'')]]
     else if name = ''B'' then structInfo [mkField ''A'' (PtrTo (Named ''main'' ''A'')) [(''json'', ''a'')]]
     else if name = ''Reply'' then structInfo
       [mkField ''Code'' (Basic IntK) [(''json'', ''code'')], mkField ''Note'' (Basic String) []]
     else if name = ''Search'' then structInfo
       [mkField ''Term'' (Basic String) [(''query'', ''q''), (''header'', ''X-Term'')],
        mkField ''Page'' (Basic IntK) [],
        mkField ''Limit'' (Basic IntK) [(''query'', ''limit'')]]
     else if name = ''Color'' then
       \<lparr>td_shape = DefinedAs (Basic IntK),
        td_enums = Some [(''A'', GoVal ColorT (LInt 1)), (''B'', GoVal ColorT (LInt 2))]\<rparr>
     else if name = ''Paint'' then structInfo [mkField ''Tone'' ColorT [(''json'', ''tone'')]]
     else if name = ''X'' then structInfo [mkField ''N'' (Basic IntK) [(''json'', ''n'')]]
     else if name = ''Y'' then structInfo [mkField ''S'' (Basic String) [(''json'', ''s'')]]
     else if name = ''Z'' then structInfo [mkField ''B'' (Basic Bool) [(''json'', ''b'')]]
     else if name = ''Pair[main.X,main.Z]'' then structInfo
       [mkField ''First'' (Named ''main'' ''X'') [(''json'', ''first'')],
        mkField ''Second'' (Named ''main'' ''Z'') [(''json'', ''second'')]]
     else if name = ''Pair[main.Y,main.Z]'' then structInfo
       [mkField ''First'' (Named ''main'' ''Y'') [(''json'', ''first'')],
        mkField ''Second'' (Named ''main'' ''Z'') [(''json'', ''second'')]]
     else if name = ''Holder'' then structInfo
       [mkField ''G'' (Named ''main'' ''Pair[main.Y,main.Z]'') [(''json'', ''g'')]]
     else if name = ''Top'' then structInfo
       [mkField ''H'' (Named ''main'' ''Pair[main.X,main.Z]'') [(''json'', ''h'')],
        mkField ''F'' (Named ''main'' ''Holder'') [(''json'', ''f'')]]
     else if name = ''Wire'' then structInfo
       [mkField ''Pipes'' (MapOf (Basic String) (ChanOf (Basic IntK))) [(''json'', ''pipes'')]]
     else structInfo [])"

text \<open>The state of a fresh document: no component, no coercion.\<close>

definition fresh :: Swagger where
  "fresh = \<lparr>Schemas = [], CustomFuncs = []\<rparr>"

section \<open>Parameter locations, as the loop resolves them\<close>




section \<open>Cyclic models\<close>

text \<open>
  The first field of the struct \<open>t\<close> is a pointer to the struct \<open>u\<close> (not named
  \<^verbatim>\<open>Time\<close>), with a tag that parses and, for a request, a \<^verbatim>\<open>form\<close> name.
\<close>

definition firstFieldPointsTo :: "tyenv \<Rightarrow> bool \<Rightarrow> gotype \<Rightarrow> gotype \<Rightarrow> bool" where
  "firstFieldPointsTo env isRequest t u =
    (case fieldsOf env t of
       [] \<Rightarrow> False
     | field # fs \<Rightarrow>
         fld_type field = PtrTo u \<and> kindOf env u = Struct \<and> nameOf u \<noteq> ''Time''
         \<and> (case fld_tag field of
               None \<Rightarrow> False
             | Some tags \<Rightarrow> \<not> (tagsGet tags FORM = None \<and> isRequest)))"

section \<open>Registry invariants\<close>

text \<open>
  Every entry of the registry holds a schema whose title is the key of the entry; and
  (what a Go map gives by itself) no key occurs twice.
\<close>

definition keyTitleCoherent :: "Swagger \<Rightarrow> bool" where
  "keyTitleCoherent st =
     list_all (\<lambda>(k, r). case r_value r of Some s \<Rightarrow> s_title s = k | None \<Rightarrow> False) (Schemas st)"

definition distinctKeys :: "Swagger \<Rightarrow> bool" where
  "distinctKeys st = distinct (map fst (Schemas st))"

definition regInv :: "Swagger \<Rightarrow> bool" where
  "regInv st = (distinctKeys st \<and> keyTitleCoherent st)"

text \<open>The keys of the registry, and the invariants together with a set of keys that are present.\<close>

definition keysOf :: "Swagger \<Rightarrow> string set" where
  "keysOf st = fst ` set (Schemas st)"

definition regInvOver :: "string set \<Rightarrow> Swagger \<Rightarrow> bool" where
  "regInvOver K st = (regInv st \<and> K \<subseteq> keysOf st)"

section \<open>Property keys of a traversal\<close>



definition propertyKeys :: "schema \<Rightarrow> string set" where
  "propertyKeys s = fst ` set (s_properties s)"

section \<open>The type switch, case by case\<close>

text \<open>
  The cases of the type switch of \<^verbatim>\<open>getSchemaByValue\<close> that build their schema
  without a further call: the schema for such a value, \<open>None\<close> for any other value.
\<close>

definition switchPrimitive :: "gotype option \<Rightarrow> schema option" where
  "switchPrimitive t =
    (if t \<in> {Some (Basic IntK), Some (Basic Int8), Some (Basic Int16)} then Some NewIntegerSchema
     else if t \<in> {Some (Basic Uint), Some (Basic Uint8), Some (Basic Uint16)}
       then Some (set_min (Some 0) NewIntegerSchema)
     else if t = Some (Basic Int32) then Some NewInt32Schema
     else if t = Some (Basic Uint32) then Some (set_min (Some 0) NewInt32Schema)
     else if t = Some (Basic Int64) then Some NewInt64Schema
     else if t = Some (Basic Uint64) then Some (set_min (Some 0) NewInt64Schema)
     else if t = Some (Basic String) then Some NewStringSchema
     else if t = Some TimeT then Some NewDateTimeSchema
     else if t = Some (Basic Float32) then Some (set_format ''float'' NewFloat64Schema)
     else if t = Some (Basic Float64) then Some (set_format ''double'' NewFloat64Schema)
     else if t = Some (Basic Bool) then Some NewBoolSchema
     else if t = Some (SliceOf (Basic Uint8)) then Some NewBytesSchema
     else if t = Some (PtrTo FileHeaderT) then Some (set_format ''binary'' NewStringSchema)
     else if t = Some (SliceOf (PtrTo FileHeaderT))
       then Some (set_items (Some (SchemaRef []
              (Some (set_format ''binary'' (set_type (Some ''string'') emptySchema))))) NewArraySchema)
     else None)"

declare getSchemaByValue.simps [simp del]
declare getRequestSchemaByModel.simps [simp del]
declare getResponseSchemaByModel.simps [simp del]
declare getComponentByModel.simps [simp del]

section \<open>Type classifier: the primitive mapping\<close>

lemmas schema_ctor_defs = NewIntegerSchema_def NewInt32Schema_def NewInt64Schema_def
  NewFloat64Schema_def NewStringSchema_def NewBoolSchema_def NewDateTimeSchema_def
  NewBytesSchema_def NewArraySchema_def NewObjectSchema_def emptySchema_def

text \<open>
  C5. The unsigned integer kinds classify as \<open>integer\<close> with minimum 0, the signed ones
  as \<open>integer\<close> with no minimum, the 32 and 64 bit forms carry the format \<open>int32\<close> and
  \<open>int64\<close>, a 32 bit float is a \<open>number\<close> of format \<open>float\<close>; the kind-based
  classifier and the value-based one (on a value of the predeclared type) agree.
\<close>

theorem primitive_classification:
  "(k \<in> {Uint, Uint8, Uint16, Uint32, Uint64} \<longrightarrow>
      (\<exists>s. getBasicSchemaByType k = Some s \<and> s_type s = Some ''integer'' \<and> s_min s = Some 0
         \<and> s_format s = (if k = Uint32 then ''int32'' else if k = Uint64 then ''int64'' else [])
         \<and> getSchemaByValue (Suc n) env st (Some (Basic k)) request = Some (Inr ([], s, None, st))))
   \<and> (k \<in> {IntK, Int8, Int16, Int32, Int64} \<longrightarrow>
      (\<exists>s. getBasicSchemaByType k = Some s \<and> s_type s = Some ''integer'' \<and> s_min s = None
         \<and> s_format s = (if k = Int32 then ''int32'' else if k = Int64 then ''int64'' else [])
         \<and> getSchemaByValue (Suc n) env st (Some (Basic k)) request = Some (Inr ([], s, None, st))))
   \<and> (k = Float32 \<longrightarrow>
      (\<exists>s. getBasicSchemaByType k = Some s \<and> s_type s = Some ''number'' \<and> s_min s = None
         \<and> s_format s = ''float''
         \<and> getSchemaByValue (Suc n) env st (Some (Basic k)) request = Some (Inr ([], s, None, st))))"
  by (auto simp: getBasicSchemaByType_def schema_ctor_defs TimeT_def getSchemaByValue.simps)

theorem primitive_classification_witness:
  "(\<exists>s. getBasicSchemaByType Uint8 = Some s \<and> s_type s = Some ''integer'' \<and> s_min s = Some 0)
   \<and> (\<exists>s. getBasicSchemaByType Int64 = Some s \<and> s_type s = Some ''integer'' \<and> s_min s = None
          \<and> s_format s = ''int64'')
   \<and> (\<exists>s. getBasicSchemaByType Float32 = Some s \<and> s_type s = Some ''number'' \<and> s_format s = ''float'')"
  using primitive_classification [of Uint8] primitive_classification [of Int64]
    primitive_classification [of Float32]
  by simp blast

text \<open>
  C4. For a kind outside its switch (a channel, a function) \<^verbatim>\<open>getBasicSchemaByType\<close>
  returns the nil schema to its caller, where \<^verbatim>\<open>NewEnumSchema\<close> panics.
\<close>

theorem classifier_nil_on_unsupported_kind:
  "getBasicSchemaByType Chan = None \<and> getBasicSchemaByType Func = None
   \<and> NewEnumSchema ''E'' Chan = Inl (InvalidEnumType ''E'' Chan)"
  by (simp add: getBasicSchemaByType_def NewEnumSchema_def)

section \<open>Path rewriting\<close>








section \<open>Canonical titles\<close>

lemma split_on_not_Nil [simp]: "split_on c s \<noteq> []"
  by (induction s) (auto split: list.splits)













section \<open>Parameter extractor: which location wins\<close>










section \<open>Enum schema derivation\<close>

lemma map_of_fold_update_keep:
  "map_of fs k = Some fn \<Longrightarrow> map_of (fold (\<lambda>t fs. AList.update (dyn_type t) fn fs) vs fs) k = Some fn"
  by (induction vs arbitrary: fs) (auto simp: update_conv')

lemma map_of_fold_update_member:
  "v \<in> set vs \<Longrightarrow> map_of (fold (\<lambda>t fs. AList.update (dyn_type t) fn fs) vs fs) (dyn_type v) = Some fn"
  by (induction vs arbitrary: fs) (auto simp: update_conv' map_of_fold_update_keep)

lemma NewEnumSchema_GetEnumVal:
  "NewEnumSchema name k = Inr s0 \<Longrightarrow> GetEnumVal gconv name k v = Inr (gconv k v)"
  by (auto simp: NewEnumSchema_def GetEnumVal_def split: if_splits)

text \<open>
  C3. On a value of an enumerable type (whose kind \<^verbatim>\<open>NewEnumSchema\<close> accepts), the
  enum path returns and registers a schema whose enum list is, as a set, the set of the
  values of \<^verbatim>\<open>Enums()\<close>: for the mapping \<^verbatim>\<open>{"A": 1, "B": 2}\<close> the set \<open>{1, 2}\<close>. The
  function it registers for the type of every member converts a member with
  \<^verbatim>\<open>GetEnumVal\<close> and panics on any value that is not a member.
\<close>

theorem enum_round_trip:
  assumes "enumsOf env t = Some es"
    and "NewEnumSchema (nameOf t) (kindOf env t) = Inr s0"
    and "t \<noteq> TimeT"
  shows "\<exists>schema st'.
      getSchemaByValue (Suc n) env st (Some t) request
        = Some (Inr (generateRefName (nameOf t), schema, Some (nameOf t), st'))
    \<and> set (s_enum schema) = snd ` set es
    \<and> map_of (Schemas st') (nameOf t) = Some (SchemaRef [] (Some schema))
    \<and> (\<forall>v \<in> snd ` set es.
          map_of (CustomFuncs st') (dyn_type v) = Some (EnumCoercion (nameOf t) (kindOf env t) (map snd es))
          \<and> runCustomFunc gconv (EnumCoercion (nameOf t) (kindOf env t) (map snd es)) v
              = Inr (gconv (kindOf env t) v))
    \<and> (\<forall>v. v \<notin> snd ` set es \<longrightarrow>
          runCustomFunc gconv (EnumCoercion (nameOf t) (kindOf env t) (map snd es)) v
              = Inl (EnumInvalidValue (nameOf t) v))"
proof -
  obtain p nm where t: "t = Named p nm"
    using assms(1) by (cases t) (auto simp: enumsOf_def)
  let ?schema = "set_varnames (Some (map fst es)) (set_enum (map snd es) (set_title (nameOf t) s0))"
  let ?cf = "EnumCoercion (nameOf t) (kindOf env t) (map snd es)"
  let ?st' = "RegisterCustomTypeFunc ?cf (map snd es) (putSchema (nameOf t) (NewSchemaRef [] (Some ?schema)) st)"
  have en: "isEnumAble env t" using assms(1) t by (simp add: isEnumAble_def)
  have run: "getSchemaByValue (Suc n) env st (Some t) request
      = Some (Inr (generateRefName (nameOf t), ?schema, Some (nameOf t), ?st'))"
    using assms en t
    by (simp add: getSchemaByValue.simps enumSchema_def TimeT_def Let_def)
  have enum: "set (s_enum ?schema) = snd ` set es"
    by (cases s0) simp
  have reg: "map_of (Schemas ?st') (nameOf t) = Some (SchemaRef [] (Some ?schema))"
    by (simp add: RegisterCustomTypeFunc_def putSchema_def NewSchemaRef_def update_conv')
  have funcs: "map_of (CustomFuncs ?st') (dyn_type v) = Some ?cf" if "v \<in> snd ` set es" for v
    using that by (simp add: RegisterCustomTypeFunc_def map_of_fold_update_member)
  have acc: "runCustomFunc gconv ?cf v = Inr (gconv (kindOf env t) v)" if "v \<in> snd ` set es" for v
    using that NewEnumSchema_GetEnumVal [OF assms(2)] by (simp add: runCustomFunc_def)
  have rej: "runCustomFunc gconv ?cf v = Inl (EnumInvalidValue (nameOf t) v)" if "v \<notin> snd ` set es" for v
    using that by (simp add: runCustomFunc_def)
  from run enum reg funcs acc rej show ?thesis by blast
qed

theorem enum_round_trip_witness:
  "\<exists>schema st'.
      getSchemaByValue 1 exampleEnv fresh (Some ColorT) False
        = Some (Inr (''#/components/schemas/Color'', schema, Some ''Color'', st'))
    \<and> set (s_enum schema) = {GoVal ColorT (LInt 1), GoVal ColorT (LInt 2)}
    \<and> map_of (CustomFuncs st') ColorT = Some (EnumCoercion ''Color'' IntK [GoVal ColorT (LInt 1), GoVal ColorT (LInt 2)])
    \<and> runCustomFunc (\<lambda>k v. GoVal (Basic k) (payload v))
          (EnumCoercion ''Color'' IntK [GoVal ColorT (LInt 1), GoVal ColorT (LInt 2)]) (GoVal ColorT (LInt 1))
        = Inr (GoVal (Basic IntK) (LInt 1))
    \<and> runCustomFunc (\<lambda>k v. GoVal (Basic k) (payload v))
          (EnumCoercion ''Color'' IntK [GoVal ColorT (LInt 1), GoVal ColorT (LInt 2)]) (GoVal ColorT (LInt 3))
        = Inl (EnumInvalidValue ''Color'' (GoVal ColorT (LInt 3)))"
proof -
  have e: "enumsOf exampleEnv ColorT = Some [(''A'', GoVal ColorT (LInt 1)), (''B'', GoVal ColorT (LInt 2))]"
    by (simp add: enumsOf_def ColorT_def exampleEnv_def)
  have k: "kindOf exampleEnv ColorT = IntK"
    by (simp add: kindOf_def ColorT_def exampleEnv_def)
  have s: "NewEnumSchema (nameOf ColorT) (kindOf exampleEnv ColorT) = Inr NewIntegerSchema"
    by (simp add: k NewEnumSchema_def)
  have d: "ColorT \<noteq> TimeT" by (simp add: ColorT_def TimeT_def)
  have nm: "nameOf ColorT = ''Color''" by (simp add: ColorT_def)
  let ?g = "\<lambda>k v. GoVal (Basic k) (payload v)"
  let ?cf = "EnumCoercion ''Color'' IntK [GoVal ColorT (LInt 1), GoVal ColorT (LInt 2)]"
  from enum_round_trip [OF e s d, of 0 fresh False ?g]
  obtain schema st' where
    r: "getSchemaByValue 1 exampleEnv fresh (Some ColorT) False
          = Some (Inr (''#/components/schemas/Color'', schema, Some ''Color'', st'))"
    and en: "set (s_enum schema) = {GoVal ColorT (LInt 1), GoVal ColorT (LInt 2)}"
    and f: "\<forall>v \<in> {GoVal ColorT (LInt 1), GoVal ColorT (LInt 2)}.
          map_of (CustomFuncs st') (dyn_type v) = Some ?cf \<and> runCustomFunc ?g ?cf v = Inr (?g IntK v)"
    and rej: "\<forall>v. v \<notin> {GoVal ColorT (LInt 1), GoVal ColorT (LInt 2)} \<longrightarrow>
          runCustomFunc ?g ?cf v = Inl (EnumInvalidValue ''Color'' v)"
    by (auto simp: k nm generateRefName_def)
  from f have "map_of (CustomFuncs st') ColorT = Some ?cf"
    and "runCustomFunc ?g ?cf (GoVal ColorT (LInt 1)) = Inr (GoVal (Basic IntK) (LInt 1))"
    by auto
  moreover from rej have "runCustomFunc ?g ?cf (GoVal ColorT (LInt 3)) = Inl (EnumInvalidValue ''Color'' (GoVal ColorT (LInt 3)))"
    by simp
  ultimately show ?thesis using r en by blast
qed

section \<open>Cyclic models\<close>

lemma bindR_None [simp]: "bindR None k = None"
  by (simp add: bindR_def)

lemma kindOf_PtrTo [simp]: "kindOf env (PtrTo t) = Ptr"
  by (simp add: kindOf_def)

lemma elemOf_PtrTo [simp]: "elemOf env (PtrTo t) = t"
  by (simp add: elemOf_def)

lemma fieldsOf_Struct: "fieldsOf env t \<noteq> [] \<Longrightarrow> kindOf env t = Struct"
  by (auto simp: fieldsOf_def kindOf_def split: gotype.splits shape.splits)

text \<open>One step: the component of \<open>t\<close> needs the component of \<open>u\<close> first.\<close>

lemma component_needs_first_field:
  assumes "firstFieldPointsTo env isRequest t u"
    and "\<not> checkSchemaExist st (nameOf u)"
    and "getComponentByModel n env st (Some u) isRequest = None"
  shows "getComponentByModel (Suc n) env st (Some t) isRequest = None"
proof -
  from assms(1) obtain field fs tags where
    fs: "fieldsOf env t = field # fs" and ty: "fld_type field = PtrTo u"
    and ku: "kindOf env u = Struct" and nu: "nameOf u \<noteq> ''Time''"
    and tg: "fld_tag field = Some tags" and fm: "\<not> (tagsGet tags FORM = None \<and> isRequest)"
    by (auto simp: firstFieldPointsTo_def split: list.splits option.splits)
  have kt: "kindOf env t = Struct" using fs by (intro fieldsOf_Struct) simp
  have "componentField (\<lambda>s v. getSchemaByValue n env s v isRequest)
          (\<lambda>s v. getComponentByModel n env s v isRequest) env isRequest (NewObjectSchema, st) field = None"
    using ty ku nu tg fm assms(2,3)
    by (simp add: componentField_def derefType_def Let_def ensureComponent_def)
  then show ?thesis
    using fs kt by (simp add: getComponentByModel.simps derefType_def)
qed

text \<open>
  C1. A struct whose first field is a pointer to itself, or two structs whose first
  fields point to each other, synthesized into a registry that has no entry with their
  titles: \<^verbatim>\<open>getComponentByModel\<close> never returns, whatever depth of calls it is given.
  The entry of a type is inserted after the loop over its fields, so
  \<^verbatim>\<open>checkSchemaExist\<close> is false each time the recursion comes back to the type.
\<close>

theorem cyclic_model_never_returns:
  "(firstFieldPointsTo env isRequest t t \<and> \<not> checkSchemaExist st (nameOf t)
      \<longrightarrow> getComponentByModel n env st (Some t) isRequest = None)
   \<and> (firstFieldPointsTo env isRequest t u \<and> firstFieldPointsTo env isRequest u t
       \<and> \<not> checkSchemaExist st (nameOf t) \<and> \<not> checkSchemaExist st (nameOf u)
      \<longrightarrow> getComponentByModel n env st (Some t) isRequest = None)"
proof -
  have self: "getComponentByModel n env st (Some t) isRequest = None"
    if "firstFieldPointsTo env isRequest t t" "\<not> checkSchemaExist st (nameOf t)"
  proof (induction n)
    case 0
    show ?case by (simp add: getComponentByModel.simps)
  next
    case (Suc n)
    from that Suc show ?case by (rule component_needs_first_field)
  qed
  have mutual: "getComponentByModel n env st (Some t) isRequest = None
      \<and> getComponentByModel n env st (Some u) isRequest = None"
    if "firstFieldPointsTo env isRequest t u" "firstFieldPointsTo env isRequest u t"
       "\<not> checkSchemaExist st (nameOf t)" "\<not> checkSchemaExist st (nameOf u)"
  proof (induction n)
    case 0
    show ?case by (simp add: getComponentByModel.simps)
  next
    case (Suc n)
    then show ?case
      using that component_needs_first_field [of env isRequest t u st n]
        component_needs_first_field [of env isRequest u t st n]
      by simp
  qed
  from self mutual show ?thesis by blast
qed

theorem cyclic_model_never_returns_witness:
  "getComponentByModel 1000 exampleEnv fresh (Some (Named ''main'' ''Node'')) False = None
   \<and> getComponentByModel 1000 exampleEnv fresh (Some (Named ''main'' ''A'')) False = None"
proof -
  let ?N = "Named ''main'' ''Node''" and ?A = "Named ''main'' ''A''" and ?B = "Named ''main'' ''B''"
  have n: "firstFieldPointsTo exampleEnv False ?N ?N"
    by (simp add: firstFieldPointsTo_def fieldsOf_def kindOf_def exampleEnv_def structInfo_def mkField_def)
  have ab: "firstFieldPointsTo exampleEnv False ?A ?B"
    by (simp add: firstFieldPointsTo_def fieldsOf_def kindOf_def exampleEnv_def structInfo_def mkField_def)
  have ba: "firstFieldPointsTo exampleEnv False ?B ?A"
    by (simp add: firstFieldPointsTo_def fieldsOf_def kindOf_def exampleEnv_def structInfo_def mkField_def)
  have e: "\<not> checkSchemaExist fresh name" for name
    by (simp add: checkSchemaExist_def fresh_def)
  from cyclic_model_never_returns [of exampleEnv False ?N fresh 1000] n e
  have "getComponentByModel 1000 exampleEnv fresh (Some ?N) False = None" by blast
  moreover from cyclic_model_never_returns [of exampleEnv False ?A fresh 1000 ?B] ab ba e
  have "getComponentByModel 1000 exampleEnv fresh (Some ?A) False = None" by blast
  ultimately show ?thesis by simp
qed

section \<open>Registry invariants\<close>

subsection \<open>The invariants under the primitive state changes\<close>

lemma list_all_update:
  "list_all P al \<Longrightarrow> P (k, v) \<Longrightarrow> list_all P (AList.update k v al)"
  by (induction al) auto

lemma list_all_map_entry:
  "list_all P al \<Longrightarrow> (\<And>v. P (k, v) \<Longrightarrow> P (k, g v)) \<Longrightarrow> list_all P (AList.map_entry k g al)"
  by (induction al) auto

lemma map_fst_map_entry [simp]: "map fst (AList.map_entry k g al) = map fst al"
  by (induction al) auto

lemma keysOf_putSchema [simp]: "keysOf (putSchema k r st) = insert k (keysOf st)"
proof -
  have "set (map fst (AList.update k r (Schemas st))) = insert k (set (map fst (Schemas st)))"
    by (auto simp: update_keys)
  then show ?thesis by (simp add: keysOf_def putSchema_def)
qed

lemma keys_map_entry [simp]: "fst ` set (AList.map_entry k g al) = fst ` set al"
  by (induction al) auto

lemma keysOf_mutate [simp]: "keysOf (mutate a f st) = keysOf st"
  by (cases a) (simp_all add: keysOf_def mutate_def)

lemma keysOf_Register [simp]: "keysOf (RegisterCustomTypeFunc fn ts st) = keysOf st"
  by (simp add: keysOf_def RegisterCustomTypeFunc_def)

lemma regInv_putSchema0:
  "regInv st \<Longrightarrow> s_title s = k \<Longrightarrow> regInv (putSchema k (SchemaRef r (Some s)) st)"
  by (auto simp: regInv_def distinctKeys_def keyTitleCoherent_def putSchema_def distinct_update
           intro: list_all_update)

lemma regInv_putSchema:
  "regInvOver K st \<Longrightarrow> s_title s = k \<Longrightarrow> regInvOver K (putSchema k (SchemaRef r (Some s)) st)"
  by (auto simp: regInvOver_def regInv_putSchema0)

lemma regInv_mutate:
  assumes "\<And>s. s_title (f s) = s_title s" and "regInvOver K st"
  shows "regInvOver K (mutate a f st)"
proof (cases a)
  case None
  with assms(2) show ?thesis by (simp add: mutate_def)
next
  case (Some key)
  have "list_all (\<lambda>(k, r). case r_value r of Some s \<Rightarrow> s_title s = k | None \<Rightarrow> False)
          (AList.map_entry key (\<lambda>r. SchemaRef (r_ref r) (map_option f (r_value r))) (Schemas st))"
    using assms
    by (intro list_all_map_entry) (auto simp: regInvOver_def regInv_def keyTitleCoherent_def split: option.splits)
  then have "regInv (mutate a f st)"
    using assms(2) Some
    by (simp add: mutate_def regInvOver_def regInv_def distinctKeys_def keyTitleCoherent_def)
  with assms(2) show ?thesis by (simp add: regInvOver_def)
qed

lemma regInv_Register [simp]: "regInvOver K (RegisterCustomTypeFunc fn ts st) = regInvOver K st"
  by (simp add: RegisterCustomTypeFunc_def regInvOver_def regInv_def distinctKeys_def keyTitleCoherent_def keysOf_def)

lemma title_setters [simp]:
  "s_title (set_type x s) = s_title s"
  "s_title (set_format y s) = s_title s"
  "s_title (set_description y s) = s_title s"
  "s_title (set_default z s) = s_title s"
  "s_title (set_items i s) = s_title s"
  "s_title (set_title y s) = y"
  "s_title (set_enum e s) = s_title s"
  "s_title (set_varnames w s) = s_title s"
  by (cases s; simp)+

lemma regInv_assign:
  assumes "\<And>s. s_title (f s) = s_title s" and "regInvOver K st" and "assign a f (s, st) = (s', st')"
  shows "regInvOver K st'"
proof -
  have "st' = mutate a f st" using assms(3) by (simp add: assign_def)
  with assms(1,2) show ?thesis by (simp add: regInv_mutate)
qed

lemma regInv_descDefault:
  assumes "regInvOver K st" and "descDefault tags a (s, st) = (s', st')"
  shows "regInvOver K st'"
proof -
  define p1 where
    "p1 = (case tagsGet tags DESCRIPTION of Some d \<Rightarrow> assign a (set_description d) (s, st) | None \<Rightarrow> (s, st))"
  have 1: "regInvOver K (snd p1)"
    unfolding p1_def using assms(1)
    by (cases "tagsGet tags DESCRIPTION") (simp_all add: assign_def regInv_mutate)
  have "(s', st') = (case tagsGet tags DEFAULT of Some d \<Rightarrow> assign a (set_default (Some d)) p1 | None \<Rightarrow> p1)"
    using assms(2) unfolding descDefault_def Let_def p1_def by auto
  then have "st' = (case tagsGet tags DEFAULT of Some d \<Rightarrow> mutate a (set_default (Some d)) (snd p1) | None \<Rightarrow> snd p1)"
    by (cases "tagsGet tags DEFAULT") (simp_all add: assign_def prod_eq_iff)
  with 1 show ?thesis
    by (cases "tagsGet tags DEFAULT") (simp_all add: regInv_mutate)
qed

lemma bindR_Inr:
  "bindR m k = Some (Inr y) \<Longrightarrow> \<exists>x. m = Some (Inr x) \<and> k x = Some (Inr y)"
  by (auto simp: bindR_def split: option.splits sum.splits)

lemma foldR_invariant:
  assumes "\<And>acc x acc'. I acc \<Longrightarrow> x \<in> set xs \<Longrightarrow> f acc x = Some (Inr acc') \<Longrightarrow> I acc'"
    and "I acc" and "foldR f xs acc = Some (Inr acc')"
  shows "I acc'"
  using assms
proof (induction xs arbitrary: acc)
  case Nil
  then show ?case by simp
next
  case (Cons x xs)
  from Cons.prems(3) obtain acc1 where
    s: "f acc x = Some (Inr acc1)" and r: "foldR f xs acc1 = Some (Inr acc')"
    by (auto dest: bindR_Inr)
  have 1: "I acc1"
    by (rule Cons.prems(1) [OF Cons.prems(2) _ s]) simp
  show ?case
  proof (rule Cons.IH [OF _ 1 r])
    fix b y b'
    assume "I b" and "y \<in> set xs" and "f b y = Some (Inr b')"
    then show "I b'"
      using Cons.prems(1) [of b y b'] by simp
  qed
qed

subsection \<open>The walker keeps the invariants\<close>

lemma enumSchema_regInv:
  assumes "regInvOver K st" and "enumSchema env st t = Some (Inr (r, s, a, st'))"
  shows "regInvOver K st'"
proof -
  from assms(2) obtain es s0 where
    "st' = RegisterCustomTypeFunc (EnumCoercion (nameOf t) (kindOf env t) (map snd es)) (map snd es)
             (putSchema (nameOf t) (SchemaRef []
                (Some (set_varnames (Some (map fst es)) (set_enum (map snd es) (set_title (nameOf t) s0))))) st)"
    by (auto simp: enumSchema_def Let_def NewSchemaRef_def split: option.splits sum.splits)
  with assms(1) show ?thesis by (simp add: regInv_putSchema)
qed

lemma requestField_regInv:
  assumes w: "\<And>st v r s a st'. regInvOver K st \<Longrightarrow> walk st v = Some (Inr (r, s, a, st')) \<Longrightarrow> regInvOver K st'"
    and i: "regInvOver K (snd acc)" and r: "requestField walk env acc field = Some (Inr acc')"
  shows "regInvOver K (snd acc')"
proof -
  from r obtain tags where tags: "fld_tag field = Some tags"
    by (auto simp: requestField_def split: option.splits)
  show ?thesis
  proof (cases "tagsGet tags FORM")
    case None
    with r tags i show ?thesis by (simp add: requestField_def)
  next
    case (Some tagName)
    with r tags obtain fr fs a st1 fs' st2 where
      wk: "walk (snd acc) (zeroIface env (derefType env (fld_type field))) = Some (Inr (fr, fs, a, st1))"
      and dd: "descDefault tags a (fs, st1) = (fs', st2)" and e: "snd acc' = st2"
      by (auto simp: requestField_def Let_def split: if_splits prod.splits dest!: bindR_Inr)
    have "regInvOver K st1" using i wk by (rule w)
    then have "regInvOver K st2" using dd by (rule regInv_descDefault)
    with e show ?thesis by simp
  qed
qed

lemma responseField_regInv:
  assumes w: "\<And>st v r s a st'. regInvOver K st \<Longrightarrow> walk st v = Some (Inr (r, s, a, st')) \<Longrightarrow> regInvOver K st'"
    and i: "regInvOver K (snd acc)" and r: "responseField walk env acc field = Some (Inr acc')"
  shows "regInvOver K (snd acc')"
proof (cases "fld_exported field")
  case False
  with r i show ?thesis by (simp add: responseField_def)
next
  case True
  with r obtain fr fs a st1 tags where
    wk: "walk (snd acc) (zeroIface env (fld_type field)) = Some (Inr (fr, fs, a, st1))"
    and tags: "fld_tag field = Some tags"
    by (auto simp: responseField_def split: option.splits dest!: bindR_Inr)
  have i1: "regInvOver K st1" using i wk by (rule w)
  show ?thesis
  proof (cases "tagsGet tags JSON")
    case None
    with r True wk tags i1 show ?thesis by (auto simp: responseField_def bindR_def)
  next
    case (Some tagName)
    with r True wk tags obtain fs' st2 where
      dd: "descDefault tags a (fs, st1) = (fs', st2)" and e: "snd acc' = st2"
      by (auto simp: responseField_def bindR_def Let_def split: prod.splits)
    from i1 dd have "regInvOver K st2" by (rule regInv_descDefault)
    with e show ?thesis by simp
  qed
qed


lemma getSchemaByValue_Suc_cases:
  assumes "getSchemaByValue (Suc n) env st t req = Some (Inr (r, s, a, st'))"
  obtains (same) "st' = st"
    | (enum) ty where "t = Some ty" "enumSchema env st ty = Some (Inr (r, s, a, st'))"
    | (request) "getRequestSchemaByModel n env st t = Some (Inr (r, s, a, st'))"
    | (response) "getResponseSchemaByModel n env st t = Some (Inr (r, s, a, st'))"
  using assms
  by (auto simp: getSchemaByValue.simps split: if_splits option.splits)

lemma getRequestSchemaByModel_Suc_cases:
  assumes "getRequestSchemaByModel (Suc n) env st t = Some (Inr (r, s, a, st'))"
  obtains (nil) "st' = st"
    | (struct) ty sch where "t = Some ty"
        "foldR (requestField (\<lambda>s v. getSchemaByValue n env s v True) env)
           (fieldsOf env (derefType env ty)) (NewObjectSchema, st) = Some (Inr (sch, st'))"
    | (elem) ty r' s' a' where "t = Some ty"
        "getRequestSchemaByModel n env st (zeroIface env (elemOf env (derefType env ty))) = Some (Inr (r', s', a', st'))"
    | (other) "getSchemaByValue n env st t True = Some (Inr (r, s, a, st'))"
  using assms
  by (cases t) (auto simp: getRequestSchemaByModel.simps Let_def split: if_splits dest!: bindR_Inr)

lemma getResponseSchemaByModel_Suc_cases:
  assumes "getResponseSchemaByModel (Suc n) env st t = Some (Inr (r, s, a, st'))"
  obtains (nil) "st' = st"
    | (struct) ty sch where "t = Some ty"
        "foldR (responseField (\<lambda>s v. getSchemaByValue n env s v False) env)
           (fieldsOf env (derefType env ty)) (NewObjectSchema, st) = Some (Inr (sch, st'))"
    | (elem) ty r' s' a' where "t = Some ty"
        "getResponseSchemaByModel n env st (zeroIface env (elemOf env (derefType env ty))) = Some (Inr (r', s', a', st'))"
    | (other) v where "getSchemaByValue n env st v False = Some (Inr (r, s, a, st'))"
  using assms
  by (cases t) (auto simp: getResponseSchemaByModel.simps Let_def split: if_splits dest!: bindR_Inr)

lemma walker_regInv:
  "(\<forall>st t req r s a st'. regInvOver K st \<longrightarrow> getSchemaByValue n env st t req = Some (Inr (r, s, a, st')) \<longrightarrow> regInvOver K st')
   \<and> (\<forall>st t r s a st'. regInvOver K st \<longrightarrow> getRequestSchemaByModel n env st t = Some (Inr (r, s, a, st')) \<longrightarrow> regInvOver K st')
   \<and> (\<forall>st t r s a st'. regInvOver K st \<longrightarrow> getResponseSchemaByModel n env st t = Some (Inr (r, s, a, st')) \<longrightarrow> regInvOver K st')"
proof (induction n)
  case 0
  show ?case by (simp add: getSchemaByValue.simps getRequestSchemaByModel.simps getResponseSchemaByModel.simps)
next
  case (Suc n)
  from Suc have v: "regInvOver K st'"
    if "regInvOver K st" "getSchemaByValue n env st t req = Some (Inr (r, s, a, st'))" for st t req r s a st'
    using that by blast
  from Suc have q: "regInvOver K st'"
    if "regInvOver K st" "getRequestSchemaByModel n env st t = Some (Inr (r, s, a, st'))" for st t r s a st'
    using that by blast
  from Suc have p: "regInvOver K st'"
    if "regInvOver K st" "getResponseSchemaByModel n env st t = Some (Inr (r, s, a, st'))" for st t r s a st'
    using that by blast
  have a: "regInvOver K st'" if i: "regInvOver K st" and g: "getSchemaByValue (Suc n) env st t req = Some (Inr (r, s, a, st'))"
    for st t req r s a st'
    using g
  proof (cases rule: getSchemaByValue_Suc_cases)
    case same
    with i show ?thesis by simp
  next
    case (enum ty)
    from i enum(2) show ?thesis by (rule enumSchema_regInv)
  next
    case request
    from i request show ?thesis by (rule q)
  next
    case response
    from i response show ?thesis by (rule p)
  qed
  have b: "regInvOver K st'" if i: "regInvOver K st" and g: "getRequestSchemaByModel (Suc n) env st t = Some (Inr (r, s, a, st'))"
    for st t r s a st'
    using g
  proof (cases rule: getRequestSchemaByModel_Suc_cases)
    case nil
    with i show ?thesis by simp
  next
    case (struct ty sch)
    have "regInvOver K (snd (sch, st'))"
    proof (rule foldR_invariant [where I = "\<lambda>acc. regInvOver K (snd acc)", OF _ _ struct(2)])
      fix acc x acc'
      assume "regInvOver K (snd acc)"
        and "requestField (\<lambda>s v. getSchemaByValue n env s v True) env acc x = Some (Inr acc')"
      then show "regInvOver K (snd acc')"
        by (rule requestField_regInv [rotated]) (rule v)
    next
      show "regInvOver K (snd (NewObjectSchema, st))" using i by simp
    qed
    then show ?thesis by simp
  next
    case (elem ty r' s' a')
    from i elem(2) show ?thesis by (rule q)
  next
    case other
    from i other show ?thesis by (rule v)
  qed
  have c: "regInvOver K st'" if i: "regInvOver K st" and g: "getResponseSchemaByModel (Suc n) env st t = Some (Inr (r, s, a, st'))"
    for st t r s a st'
    using g
  proof (cases rule: getResponseSchemaByModel_Suc_cases)
    case nil
    with i show ?thesis by simp
  next
    case (struct ty sch)
    have "regInvOver K (snd (sch, st'))"
    proof (rule foldR_invariant [where I = "\<lambda>acc. regInvOver K (snd acc)", OF _ _ struct(2)])
      fix acc x acc'
      assume "regInvOver K (snd acc)"
        and "responseField (\<lambda>s v. getSchemaByValue n env s v False) env acc x = Some (Inr acc')"
      then show "regInvOver K (snd acc')"
        by (rule responseField_regInv [rotated]) (rule v)
    next
      show "regInvOver K (snd (NewObjectSchema, st))" using i by simp
    qed
    then show ?thesis by simp
  next
    case (elem ty r' s' a')
    from i elem(2) show ?thesis by (rule p)
  next
    case (other v')
    from i other show ?thesis by (rule v)
  qed
  from a b c show ?case by blast
qed


lemma getSchemaByValue_regInv:
  "regInvOver K st \<Longrightarrow> getSchemaByValue n env st t req = Some (Inr (r, s, a, st')) \<Longrightarrow> regInvOver K st'"
  using walker_regInv [where K = K and n = n and env = env] by blast

subsection \<open>The component synthesis keeps the invariants\<close>

lemma componentField_state_cases:
  assumes "componentField walk recurse env isRequest acc field = Some (Inr acc')"
  obtains (keep) "snd acc' = snd acc"
    | (time) v r s a st1 where "walk (snd acc) v = Some (Inr (r, s, a, st1))"
        "snd acc' = mutate a (\<lambda>s. set_type (Some ''string'') (set_format ''date-time'' s)) st1"
    | (plain) v r s a st1 tags s' where "walk (snd acc) v = Some (Inr (r, s, a, st1))"
        "descDefault tags a (s, st1) = (s', snd acc')"
    | (ensured) name m where "ensureComponent recurse (snd acc) name m = Some (Inr (snd acc'))"
    | (slice) v r s a st1 name m st2 i where "walk (snd acc) v = Some (Inr (r, s, a, st1))"
        "ensureComponent recurse st1 name m = Some (Inr st2)"
        "snd acc' = mutate a (set_items i) st2"
proof -
  from assms obtain tags where tags: "fld_tag field = Some tags"
    by (auto simp: componentField_def split: option.splits)
  let ?ft = "derefType env (fld_type field)"
  consider (skip) "tagsGet tags FORM = None \<and> isRequest"
    | (st) "\<not> (tagsGet tags FORM = None \<and> isRequest)" "kindOf env ?ft = Struct"
    | (sl) "\<not> (tagsGet tags FORM = None \<and> isRequest)" "kindOf env ?ft = Slice"
    | (mp) "\<not> (tagsGet tags FORM = None \<and> isRequest)" "kindOf env ?ft = Map"
    | (ifc) "\<not> (tagsGet tags FORM = None \<and> isRequest)" "kindOf env ?ft = Interface"
    | (oth) "\<not> (tagsGet tags FORM = None \<and> isRequest)" "kindOf env ?ft \<notin> {Struct, Slice, Map, Interface}"
    by blast
  then show thesis
  proof cases
    case skip
    with assms tags have "snd acc' = snd acc" by (auto simp: componentField_def)
    then show thesis by (rule keep)
  next
    case st
    show thesis
    proof (cases "nameOf ?ft = ''Time''")
      case True
      with assms tags st obtain r s a st1 where
        "walk (snd acc) (zeroIface env ?ft) = Some (Inr (r, s, a, st1))"
        "snd acc' = mutate a (\<lambda>s. set_type (Some ''string'') (set_format ''date-time'' s)) st1"
        by (auto simp: componentField_def Let_def assign_def split: if_splits dest!: bindR_Inr)
      then show thesis by (rule time)
    next
      case False
      with assms tags st have
        "ensureComponent recurse (snd acc) (nameOf ?ft) (Some ?ft) = Some (Inr (snd acc'))"
        by (auto simp: componentField_def Let_def dest!: bindR_Inr)
      then show thesis by (rule ensured)
    qed
  next
    case sl
    with assms tags obtain r s a st1 where
      w: "walk (snd acc) (zeroIface env ?ft) = Some (Inr (r, s, a, st1))"
      by (auto simp: componentField_def Let_def split: if_splits dest!: bindR_Inr)
    show thesis
    proof (cases "isBuiltinType (kindOf env (elemOf env ?ft))")
      case True
      with assms tags sl w obtain s' where "descDefault tags a (s, st1) = (s', snd acc')"
        by (auto simp: componentField_def Let_def bindR_def split: if_splits prod.splits)
      with w show thesis by (rule plain)
    next
      case False
      with assms tags sl w obtain st2 where
        "ensureComponent recurse st1 (nameOf (derefType env (elemOf env ?ft))) (Some (elemOf env ?ft)) = Some (Inr st2)"
        "snd acc' = mutate a (set_items (Some (NewSchemaRef (generateRefName (nameOf (derefType env (elemOf env ?ft)))) None))) st2"
        by (auto simp: componentField_def Let_def bindR_def assign_def split: if_splits option.splits sum.splits)
      with w show thesis by (rule slice)
    qed
  next
    case mp
    show thesis
    proof (cases "kindOf env (elemOf env ?ft) = Struct")
      case True
      with assms tags mp have
        "ensureComponent recurse (snd acc) (nameOf (elemOf env ?ft)) (Some (elemOf env ?ft)) = Some (Inr (snd acc'))"
        by (auto simp: componentField_def Let_def dest!: bindR_Inr)
      then show thesis by (rule ensured)
    next
      case False
      with assms tags mp have "snd acc' = snd acc"
        by (auto simp: componentField_def Let_def split: if_splits)
      then show thesis by (rule keep)
    qed
  next
    case ifc
    with assms tags have "snd acc' = snd acc"
      by (auto simp: componentField_def Let_def split: if_splits)
    then show thesis by (rule keep)
  next
    case oth
    with assms tags obtain r s a st1 s' where
      "walk (snd acc) (zeroIface env ?ft) = Some (Inr (r, s, a, st1))"
      "descDefault tags a (s, st1) = (s', snd acc')"
      by (auto simp: componentField_def Let_def split: if_splits prod.splits dest!: bindR_Inr)
    then show thesis by (rule plain)
  qed
qed

lemma ensureComponent_cases:
  assumes "ensureComponent recurse st name m = Some (Inr st')"
  obtains (present) "checkSchemaExist st name" "st' = st"
    | (absent) "\<not> checkSchemaExist st name" "recurse st m = Some (Inr st')"
  using assms by (auto simp: ensureComponent_def split: if_splits)

lemma componentField_regInv:
  assumes w: "\<And>st v r s a st'. regInvOver K st \<Longrightarrow> walk st v = Some (Inr (r, s, a, st')) \<Longrightarrow> regInvOver K st'"
    and c: "\<And>st m st'. regInvOver K st \<Longrightarrow> recurse st m = Some (Inr st') \<Longrightarrow> regInvOver K st'"
    and i: "regInvOver K (snd acc)"
    and r: "componentField walk recurse env isRequest acc field = Some (Inr acc')"
  shows "regInvOver K (snd acc')"
  using r
proof (cases rule: componentField_state_cases)
  case keep
  with i show ?thesis by simp
next
  case (time v r s a st1)
  have "regInvOver K st1" using i time(1) by (rule w)
  with time(2) show ?thesis by (simp add: regInv_mutate)
next
  case (plain v r s a st1 tags s')
  have "regInvOver K st1" using i plain(1) by (rule w)
  then show ?thesis using plain(2) by (rule regInv_descDefault)
next
  case (ensured name m)
  from ensured show ?thesis
  proof (cases rule: ensureComponent_cases)
    case present
    with i show ?thesis by simp
  next
    case absent
    from i absent(2) show ?thesis by (rule c)
  qed
next
  case (slice v r s a st1 name m st2 it)
  have 1: "regInvOver K st1" using i slice(1) by (rule w)
  have "regInvOver K st2"
    using slice(2)
  proof (cases rule: ensureComponent_cases)
    case present
    with 1 show ?thesis by simp
  next
    case absent
    from 1 absent(2) show ?thesis by (rule c)
  qed
  with slice(3) show ?thesis by (simp add: regInv_mutate)
qed

lemma getComponentByModel_Suc_cases:
  assumes "getComponentByModel (Suc n) env st t isRequest = Some (Inr st')"
  obtains (nil) "t = None" "st' = st"
    | (struct) ty sch st1 where "t = Some ty" "kindOf env (derefType env ty) = Struct"
        "foldR (componentField (\<lambda>s v. getSchemaByValue n env s v isRequest)
                  (\<lambda>s v. getComponentByModel n env s v isRequest) env isRequest)
           (fieldsOf env (derefType env ty)) (NewObjectSchema, st) = Some (Inr (sch, st1))"
        "st' = putSchema (removePackageName (nameOf (derefType env ty)))
                 (SchemaRef [] (Some (set_title (removePackageName (nameOf (derefType env ty))) sch))) st1"
    | (other) ty where "t = Some ty" "kindOf env (derefType env ty) \<noteq> Struct"
        "st' = putSchema (removePackageName (nameOf (derefType env ty)))
                 (SchemaRef [] (Some (set_title (removePackageName (nameOf (derefType env ty))) NewObjectSchema))) st"
  using assms
  by (cases t) (auto simp: getComponentByModel.simps Let_def split: if_splits dest!: bindR_Inr)

lemma getComponentByModel_regInv:
  "regInvOver K st \<Longrightarrow> getComponentByModel n env st t isRequest = Some (Inr st') \<Longrightarrow> regInvOver K st'"
proof (induction n arbitrary: st t st')
  case 0
  then show ?case by (simp add: getComponentByModel.simps)
next
  case (Suc n)
  from Suc.prems(2) show ?case
  proof (cases rule: getComponentByModel_Suc_cases)
    case nil
    with Suc.prems(1) show ?thesis by simp
  next
    case (struct ty sch st1)
    have "regInvOver K (snd (sch, st1))"
    proof (rule foldR_invariant [where I = "\<lambda>acc. regInvOver K (snd acc)", OF _ _ struct(3)])
      fix acc x acc'
      assume i: "regInvOver K (snd acc)"
        and r: "componentField (\<lambda>s v. getSchemaByValue n env s v isRequest)
                  (\<lambda>s v. getComponentByModel n env s v isRequest) env isRequest acc x = Some (Inr acc')"
      show "regInvOver K (snd acc')"
      proof (rule componentField_regInv [OF _ _ i r])
        fix st v r s a st'
        assume "regInvOver K st" "getSchemaByValue n env st v isRequest = Some (Inr (r, s, a, st'))"
        then show "regInvOver K st'" by (rule getSchemaByValue_regInv)
      next
        fix st m st'
        assume "regInvOver K st" "getComponentByModel n env st m isRequest = Some (Inr st')"
        then show "regInvOver K st'" by (rule Suc.IH)
      qed
    next
      show "regInvOver K (snd (NewObjectSchema, st))" using Suc.prems(1) by simp
    qed
    with struct(4) show ?thesis by (simp add: regInv_putSchema)
  next
    case (other ty)
    with Suc.prems(1) show ?thesis by (simp add: regInv_putSchema)
  qed
qed

lemma checkSchemaExist_iff_key:
  "keyTitleCoherent st \<Longrightarrow> checkSchemaExist st name \<longleftrightarrow> name \<in> fst ` set (Schemas st)"
  by (force simp: keyTitleCoherent_def checkSchemaExist_def list_all_iff list_ex_iff split: option.splits)


lemma regInv_fresh: "regInv fresh"
  by (simp add: regInv_def distinctKeys_def keyTitleCoherent_def fresh_def)

lemma regInvOver_empty: "regInvOver {} st = regInv st"
  by (simp add: regInvOver_def)

text \<open>
  C10. Started on a registry whose entries are stored under their titles (the fresh
  registry is one), the component synthesis and the walker with its enum path leave a
  registry whose entries are all stored under their titles; on such a registry the
  existence check, which searches by title, agrees with the lookup of the key.
\<close>

theorem registry_key_is_title:
  assumes "regInv st"
  shows "(getComponentByModel n env st t isRequest = Some (Inr st') \<longrightarrow>
            keyTitleCoherent st' \<and> (\<forall>name. checkSchemaExist st' name \<longleftrightarrow> name \<in> fst ` set (Schemas st')))
       \<and> (getSchemaByValue n env st v isRequest = Some (Inr (r, s, a, st'')) \<longrightarrow>
            keyTitleCoherent st'' \<and> (\<forall>name. checkSchemaExist st'' name \<longleftrightarrow> name \<in> fst ` set (Schemas st'')))"
proof -
  have 0: "regInvOver {} st" using assms by (simp add: regInvOver_empty)
  have 1: "regInv st'" if "getComponentByModel n env st t isRequest = Some (Inr st')"
    using getComponentByModel_regInv [OF 0 that] by (simp add: regInvOver_empty)
  have 2: "regInv st''" if "getSchemaByValue n env st v isRequest = Some (Inr (r, s, a, st''))"
    using getSchemaByValue_regInv [OF 0 that] by (simp add: regInvOver_empty)
  from 1 2 show ?thesis
    by (simp add: regInv_def checkSchemaExist_iff_key)
qed

lemma Paint_components:
  "(case getComponentByModel 3 exampleEnv fresh (Some (Named ''main'' ''Paint'')) False of
      Some (Inr st') \<Rightarrow> map fst (Schemas st') = [''Color'', ''Paint'']
    | _ \<Rightarrow> False)"
  by code_simp

theorem registry_key_is_title_witness:
  "\<exists>st'. getComponentByModel 3 exampleEnv fresh (Some (Named ''main'' ''Paint'')) False = Some (Inr st')
      \<and> map fst (Schemas st') = [''Color'', ''Paint'']
      \<and> keyTitleCoherent st'
      \<and> checkSchemaExist st' ''Color'' \<and> \<not> checkSchemaExist st' ''Tone''"
proof -
  obtain st' where
    r: "getComponentByModel 3 exampleEnv fresh (Some (Named ''main'' ''Paint'')) False = Some (Inr st')"
    and k: "map fst (Schemas st') = [''Color'', ''Paint'']"
    using Paint_components by (auto split: option.splits sum.splits)
  from k have ks: "fst ` set (Schemas st') = {''Color'', ''Paint''}"
    by (metis list.set_map list.simps(15) empty_set)
  from registry_key_is_title [OF regInv_fresh, of 3 exampleEnv "Some (Named ''main'' ''Paint'')" False st'] r
  have "keyTitleCoherent st'"
    and "\<forall>name. checkSchemaExist st' name \<longleftrightarrow> name \<in> fst ` set (Schemas st')"
    by blast+
  with ks r k show ?thesis by auto
qed

section \<open>Outbound traversal: the keys of the properties\<close>

lemma s_properties_setters [simp]:
  "s_properties (set_properties x s) = x"
  "s_properties (set_required y s) = s_properties s"
  "s_properties (set_title z s) = s_properties s"
  by (cases s; simp)+

lemma propertyKeys_put_property [simp]:
  "propertyKeys (put_property k r s) = insert k (propertyKeys s)"
proof -
  have "set (map fst (AList.update k r (s_properties s))) = insert k (set (map fst (s_properties s)))"
    by (auto simp: update_keys)
  then show ?thesis by (simp add: propertyKeys_def put_property_def)
qed

lemma propertyKeys_add_required [simp]: "propertyKeys (add_required k s) = propertyKeys s"
  by (simp add: propertyKeys_def add_required_def)

lemma propertyKeys_if_required [simp]:
  "propertyKeys (if c then add_required k s else s) = propertyKeys s"
  by simp

lemma propertyKeys_set_title [simp]: "propertyKeys (set_title k s) = propertyKeys s"
  by (simp add: propertyKeys_def)

lemma propertyKeys_NewObjectSchema [simp]: "propertyKeys NewObjectSchema = {}"
  by (simp add: propertyKeys_def NewObjectSchema_def emptySchema_def)













section \<open>Synthesizing a model twice\<close>

subsection \<open>The type switch\<close>

lemma getSchemaByValue_Suc:
  "getSchemaByValue (Suc n) env st t req =
    (case switchPrimitive t of
       Some s \<Rightarrow> Some (Inr ([], s, None, st))
     | None \<Rightarrow>
        (case t of
           Some ty \<Rightarrow>
             if isEnumAble env ty then enumSchema env st ty
             else if req then getRequestSchemaByModel n env st t
             else getResponseSchemaByModel n env st t
         | None \<Rightarrow>
             if req then getRequestSchemaByModel n env st t
             else getResponseSchemaByModel n env st t))"
  by (simp add: getSchemaByValue.simps switchPrimitive_def split: option.splits)

subsection \<open>Keys only grow\<close>

lemma regInvOver_self: "regInv st \<Longrightarrow> regInvOver (keysOf st) st"
  by (simp add: regInvOver_def)

lemma regInvOver_regInv: "regInvOver K st \<Longrightarrow> regInv st"
  by (simp add: regInvOver_def)

lemma regInvOver_keys: "regInvOver K st \<Longrightarrow> K \<subseteq> keysOf st"
  by (simp add: regInvOver_def)

lemma keysOf_descDefault: "descDefault tags a (s, st) = (s', st') \<Longrightarrow> keysOf st' = keysOf st"
  by (auto simp: descDefault_def assign_def Let_def split: option.splits)

lemma descDefault_replay:
  assumes "descDefault tags a (s, st) = (s', st')"
  shows "\<exists>B'. descDefault tags a (s, B) = (s', B') \<and> keysOf B' = keysOf B"
proof -
  obtain s2 B' where d: "descDefault tags a (s, B) = (s2, B')"
    by (cases "descDefault tags a (s, B)") auto
  have "s2 = s'"
    using assms d by (auto simp: descDefault_def assign_def Let_def split: option.splits)
  with d keysOf_descDefault [OF d] show ?thesis by blast
qed

lemma enumSchema_replay:
  assumes "enumSchema env st t = Some (Inr (r, s, a, st1))" and "keysOf st1 \<subseteq> keysOf B"
  shows "\<exists>B1. enumSchema env B t = Some (Inr (r, s, a, B1)) \<and> keysOf B1 = keysOf B"
proof -
  from assms(1) obtain es s0 where
    e: "enumsOf env t = Some es" and n: "NewEnumSchema (nameOf t) (kindOf env t) = Inr s0"
    by (auto simp: enumSchema_def Let_def split: option.splits sum.splits)
  from assms(1) e n have "nameOf t \<in> keysOf st1"
    by (auto simp: enumSchema_def Let_def)
  with assms(2) have "insert (nameOf t) (keysOf B) = keysOf B" by auto
  with assms(1) e n show ?thesis
    by (auto simp: enumSchema_def Let_def)
qed


lemma foldR_grows:
  assumes grow: "\<And>acc x acc1. regInvOver K (snd acc) \<Longrightarrow> f acc x = Some (Inr acc1) \<Longrightarrow> regInvOver K (snd acc1)"
    and "regInvOver K (snd acc)" and "foldR f xs acc = Some (Inr accN)"
  shows "regInvOver K (snd accN)"
proof (rule foldR_invariant [where I = "\<lambda>acc. regInvOver K (snd acc)", OF _ assms(2,3)])
  fix b x b'
  assume "regInvOver K (snd b)" and "f b x = Some (Inr b')"
  then show "regInvOver K (snd b')" by (rule grow)
qed

lemma foldR_replay:
  assumes step: "\<And>acc x acc1 B. regInv (snd acc) \<Longrightarrow> regInv B \<Longrightarrow> f acc x = Some (Inr acc1)
        \<Longrightarrow> keysOf (snd acc1) \<subseteq> keysOf B
        \<Longrightarrow> \<exists>B1. f (fst acc, B) x = Some (Inr (fst acc1, B1)) \<and> keysOf B1 = keysOf B"
    and grow: "\<And>K acc x acc1. regInvOver K (snd acc) \<Longrightarrow> f acc x = Some (Inr acc1) \<Longrightarrow> regInvOver K (snd acc1)"
    and "regInv (snd acc)" and "regInv B" and "foldR f xs acc = Some (Inr accN)"
    and "keysOf (snd accN) \<subseteq> keysOf B"
  shows "\<exists>BN. foldR f xs (fst acc, B) = Some (Inr (fst accN, BN)) \<and> keysOf BN = keysOf B"
  using assms(3-6)
proof (induction xs arbitrary: acc B)
  case Nil
  then show ?case by simp
next
  case (Cons x xs)
  from Cons.prems(3) obtain acc1 where
    s: "f acc x = Some (Inr acc1)" and r: "foldR f xs acc1 = Some (Inr accN)"
    by (auto dest: bindR_Inr)
  have "regInvOver {} (snd acc)" using Cons.prems(1) by (simp add: regInvOver_empty)
  then have "regInvOver {} (snd acc1)" using s by (rule grow)
  then have i1: "regInv (snd acc1)" by (simp add: regInvOver_empty)
  have "regInvOver (keysOf (snd acc1)) (snd accN)"
  proof (rule foldR_grows [OF _ _ r])
    fix b y b'
    assume "regInvOver (keysOf (snd acc1)) (snd b)" and "f b y = Some (Inr b')"
    then show "regInvOver (keysOf (snd acc1)) (snd b')" by (rule grow)
  next
    show "regInvOver (keysOf (snd acc1)) (snd acc1)" using i1 by (rule regInvOver_self)
  qed
  then have "keysOf (snd acc1) \<subseteq> keysOf (snd accN)" by (rule regInvOver_keys)
  with Cons.prems(4) have k1: "keysOf (snd acc1) \<subseteq> keysOf B" by simp
  from step [OF Cons.prems(1,2) s k1] obtain B1 where
    s2: "f (fst acc, B) x = Some (Inr (fst acc1, B1))" and kb: "keysOf B1 = keysOf B"
    by blast
  have "regInvOver {} (snd (fst acc, B))" using Cons.prems(2) by (simp add: regInvOver_empty)
  then have "regInvOver {} (snd (fst acc1, B1))" using s2 by (rule grow)
  then have ib: "regInv B1" by (simp add: regInvOver_empty)
  from Cons.prems(4) kb have "keysOf (snd accN) \<subseteq> keysOf B1" by simp
  from Cons.IH [OF i1 ib r this] obtain BN where
    "foldR f xs (fst acc1, B1) = Some (Inr (fst accN, BN))" and "keysOf BN = keysOf B1"
    by blast
  with s2 kb show ?case by (simp add: bindR_def)
qed

lemma requestField_replay:
  assumes rep: "\<And>st v r s a st1 B. regInv st \<Longrightarrow> regInv B \<Longrightarrow> walk st v = Some (Inr (r, s, a, st1))
        \<Longrightarrow> keysOf st1 \<subseteq> keysOf B
        \<Longrightarrow> \<exists>B1. walk B v = Some (Inr (r, s, a, B1)) \<and> keysOf B1 = keysOf B"
    and i: "regInv (snd acc)" and ib: "regInv B"
    and r: "requestField walk env acc field = Some (Inr acc')"
    and k: "keysOf (snd acc') \<subseteq> keysOf B"
  shows "\<exists>B'. requestField walk env (fst acc, B) field = Some (Inr (fst acc', B')) \<and> keysOf B' = keysOf B"
proof -
  from r obtain tags where tags: "fld_tag field = Some tags"
    by (auto simp: requestField_def split: option.splits)
  show ?thesis
  proof (cases "tagsGet tags FORM")
    case None
    with r tags show ?thesis by (auto simp: requestField_def)
  next
    case (Some tagName)
    let ?v = "zeroIface env (derefType env (fld_type field))"
    from r tags Some have ok: "\<not> (kindOf env (fld_type field) \<noteq> Ptr \<and> \<not> fld_exported field)"
      by (auto simp: requestField_def Let_def split: if_splits)
    with r tags Some obtain fr fs a st1 fs' st2 where
      wk: "walk (snd acc) ?v = Some (Inr (fr, fs, a, st1))"
      and dd: "descDefault tags a (fs, st1) = (fs', st2)"
      and e: "acc' = (put_property tagName (NewSchemaRef fr (Some fs')) (fst acc), st2)"
      by (auto simp: requestField_def Let_def split: if_splits prod.splits dest!: bindR_Inr)
    from keysOf_descDefault [OF dd] k e have "keysOf st1 \<subseteq> keysOf B" by simp
    from rep [OF i ib wk this] obtain B1 where
      wk2: "walk B ?v = Some (Inr (fr, fs, a, B1))" and k1: "keysOf B1 = keysOf B"
      by blast
    from descDefault_replay [OF dd, of B1] obtain B2 where
      dd2: "descDefault tags a (fs, B1) = (fs', B2)" and k2: "keysOf B2 = keysOf B1"
      by blast
    from tags Some ok wk2 dd2 have
      "requestField walk env (fst acc, B) field = Some (Inr (fst acc', B2))"
      by (simp add: requestField_def Let_def bindR_def e)
    with k1 k2 show ?thesis by simp
  qed
qed

lemma responseField_replay:
  assumes rep: "\<And>st v r s a st1 B. regInv st \<Longrightarrow> regInv B \<Longrightarrow> walk st v = Some (Inr (r, s, a, st1))
        \<Longrightarrow> keysOf st1 \<subseteq> keysOf B
        \<Longrightarrow> \<exists>B1. walk B v = Some (Inr (r, s, a, B1)) \<and> keysOf B1 = keysOf B"
    and i: "regInv (snd acc)" and ib: "regInv B"
    and r: "responseField walk env acc field = Some (Inr acc')"
    and k: "keysOf (snd acc') \<subseteq> keysOf B"
  shows "\<exists>B'. responseField walk env (fst acc, B) field = Some (Inr (fst acc', B')) \<and> keysOf B' = keysOf B"
proof (cases "fld_exported field")
  case False
  with r show ?thesis by (auto simp: responseField_def)
next
  case True
  let ?v = "zeroIface env (fld_type field)"
  from r True obtain fr fs a st1 tags where
    wk: "walk (snd acc) ?v = Some (Inr (fr, fs, a, st1))"
    and tags: "fld_tag field = Some tags"
    by (auto simp: responseField_def split: option.splits dest!: bindR_Inr)
  show ?thesis
  proof (cases "tagsGet tags JSON")
    case None
    with r True wk tags have e: "acc' = (fst acc, st1)"
      by (auto simp: responseField_def bindR_def)
    with k have "keysOf st1 \<subseteq> keysOf B" by simp
    from rep [OF i ib wk this] obtain B1 where
      wk2: "walk B ?v = Some (Inr (fr, fs, a, B1))" and k1: "keysOf B1 = keysOf B"
      by blast
    from True tags None wk2 have
      "responseField walk env (fst acc, B) field = Some (Inr (fst acc', B1))"
      by (simp add: responseField_def bindR_def e)
    with k1 show ?thesis by blast
  next
    case (Some tagName)
    with r True wk tags obtain fs' st2 where
      dd: "descDefault tags a (fs, st1) = (fs', st2)"
      and e: "acc' = (put_property tagName (NewSchemaRef fr (Some fs'))
                (if isRequiredTags tags then add_required tagName (fst acc) else fst acc), st2)"
      by (auto simp: responseField_def bindR_def Let_def split: prod.splits)
    from keysOf_descDefault [OF dd] k e have "keysOf st1 \<subseteq> keysOf B" by simp
    from rep [OF i ib wk this] obtain B1 where
      wk2: "walk B ?v = Some (Inr (fr, fs, a, B1))" and k1: "keysOf B1 = keysOf B"
      by blast
    from descDefault_replay [OF dd, of B1] obtain B2 where
      dd2: "descDefault tags a (fs, B1) = (fs', B2)" and k2: "keysOf B2 = keysOf B1"
      by blast
    from True tags Some wk2 dd2 have
      "responseField walk env (fst acc, B) field = Some (Inr (fst acc', B2))"
      by (simp add: responseField_def Let_def bindR_def e)
    with k1 k2 show ?thesis by simp
  qed
qed


subsection \<open>Replaying the walker on a registry that already has the keys\<close>

lemma requestField_grows:
  "regInvOver K (snd acc) \<Longrightarrow> requestField (\<lambda>s v. getSchemaByValue n env s v b) env acc x = Some (Inr acc')
    \<Longrightarrow> regInvOver K (snd acc')"
proof (rule requestField_regInv [where walk = "\<lambda>s v. getSchemaByValue n env s v b"])
  fix st v r s a st'
  assume "regInvOver K st" and "getSchemaByValue n env st v b = Some (Inr (r, s, a, st'))"
  then show "regInvOver K st'" by (rule getSchemaByValue_regInv)
qed

lemma responseField_grows:
  "regInvOver K (snd acc) \<Longrightarrow> responseField (\<lambda>s v. getSchemaByValue n env s v b) env acc x = Some (Inr acc')
    \<Longrightarrow> regInvOver K (snd acc')"
proof (rule responseField_regInv [where walk = "\<lambda>s v. getSchemaByValue n env s v b"])
  fix st v r s a st'
  assume "regInvOver K st" and "getSchemaByValue n env st v b = Some (Inr (r, s, a, st'))"
  then show "regInvOver K st'" by (rule getSchemaByValue_regInv)
qed

lemma walker_replay:
  "(\<forall>st t b r s a st1 B. regInv st \<longrightarrow> regInv B \<longrightarrow> getSchemaByValue n env st t b = Some (Inr (r, s, a, st1))
        \<longrightarrow> keysOf st1 \<subseteq> keysOf B
        \<longrightarrow> (\<exists>B1. getSchemaByValue n env B t b = Some (Inr (r, s, a, B1)) \<and> keysOf B1 = keysOf B))
   \<and> (\<forall>st t r s a st1 B. regInv st \<longrightarrow> regInv B \<longrightarrow> getRequestSchemaByModel n env st t = Some (Inr (r, s, a, st1))
        \<longrightarrow> keysOf st1 \<subseteq> keysOf B
        \<longrightarrow> (\<exists>B1. getRequestSchemaByModel n env B t = Some (Inr (r, s, a, B1)) \<and> keysOf B1 = keysOf B))
   \<and> (\<forall>st t r s a st1 B. regInv st \<longrightarrow> regInv B \<longrightarrow> getResponseSchemaByModel n env st t = Some (Inr (r, s, a, st1))
        \<longrightarrow> keysOf st1 \<subseteq> keysOf B
        \<longrightarrow> (\<exists>B1. getResponseSchemaByModel n env B t = Some (Inr (r, s, a, B1)) \<and> keysOf B1 = keysOf B))"
proof (induction n)
  case 0
  show ?case by (simp add: getSchemaByValue.simps getRequestSchemaByModel.simps getResponseSchemaByModel.simps)
next
  case (Suc n)
  note v = Suc [THEN conjunct1, rule_format]
  note q = Suc [THEN conjunct2, THEN conjunct1, rule_format]
  note p = Suc [THEN conjunct2, THEN conjunct2, rule_format]
  have A: "\<exists>B1. getSchemaByValue (Suc n) env B t b = Some (Inr (r, s, a, B1)) \<and> keysOf B1 = keysOf B"
    if i: "regInv st" and ib: "regInv B"
      and g: "getSchemaByValue (Suc n) env st t b = Some (Inr (r, s, a, st1))"
      and k: "keysOf st1 \<subseteq> keysOf B"
    for st t b r s a st1 B
  proof (cases "switchPrimitive t")
    case (Some s0)
    with g show ?thesis by (auto simp: getSchemaByValue_Suc)
  next
    case None
    show ?thesis
    proof (cases "case t of Some ty \<Rightarrow> isEnumAble env ty | None \<Rightarrow> False")
      case True
      then obtain ty where t: "t = Some ty" and en: "isEnumAble env ty"
        by (cases t) auto
      with g None have "enumSchema env st ty = Some (Inr (r, s, a, st1))"
        by (simp add: getSchemaByValue_Suc)
      from enumSchema_replay [OF this k] t en None show ?thesis
        by (simp add: getSchemaByValue_Suc)
    next
      case False
      show ?thesis
      proof (cases b)
        case True
        with g None False have "getRequestSchemaByModel n env st t = Some (Inr (r, s, a, st1))"
          by (auto simp: getSchemaByValue_Suc split: option.splits)
        from q [OF i ib this k] None False True show ?thesis
          by (auto simp: getSchemaByValue_Suc split: option.splits)
      next
        case nb: False
        with g None False have "getResponseSchemaByModel n env st t = Some (Inr (r, s, a, st1))"
          by (auto simp: getSchemaByValue_Suc split: option.splits)
        from p [OF i ib this k] None False nb show ?thesis
          by (auto simp: getSchemaByValue_Suc split: option.splits)
      qed
    qed
  qed
  have Q: "\<exists>B1. getRequestSchemaByModel (Suc n) env B t = Some (Inr (r, s, a, B1)) \<and> keysOf B1 = keysOf B"
    if i: "regInv st" and ib: "regInv B"
      and g: "getRequestSchemaByModel (Suc n) env st t = Some (Inr (r, s, a, st1))"
      and k: "keysOf st1 \<subseteq> keysOf B"
    for st t r s a st1 B
  proof (cases t)
    case None
    with g show ?thesis by (auto simp: getRequestSchemaByModel.simps)
  next
    case (Some ty0)
    let ?ty = "derefType env ty0"
    let ?f = "requestField (\<lambda>s v. getSchemaByValue n env s v True) env"
    consider (struct) "kindOf env ?ty = Struct"
      | (slice) "kindOf env ?ty \<noteq> Struct" "kindOf env ?ty = Slice"
      | (map) "kindOf env ?ty \<noteq> Struct" "kindOf env ?ty \<noteq> Slice" "kindOf env ?ty = Map"
      | (other) "kindOf env ?ty \<noteq> Struct" "kindOf env ?ty \<noteq> Slice" "kindOf env ?ty \<noteq> Map"
      by blast
    then show ?thesis
    proof cases
      case struct
      with g Some have f: "foldR ?f (fieldsOf env ?ty) (NewObjectSchema, st) = Some (Inr (s, st1))"
        and rs: "r = []" "a = None"
        by (auto simp: getRequestSchemaByModel.simps Let_def dest!: bindR_Inr)
      have "\<exists>BN. foldR ?f (fieldsOf env ?ty) (fst (NewObjectSchema, st), B) = Some (Inr (fst (s, st1), BN))
              \<and> keysOf BN = keysOf B"
      proof (rule foldR_replay [OF _ _ _ ib f])
        fix acc x acc1 B'
        assume "regInv (snd acc)" "regInv B'" "?f acc x = Some (Inr acc1)" "keysOf (snd acc1) \<subseteq> keysOf B'"
        then show "\<exists>B1. ?f (fst acc, B') x = Some (Inr (fst acc1, B1)) \<and> keysOf B1 = keysOf B'"
          by (rule requestField_replay [rotated]) (rule v)
      next
        fix K acc x acc1
        assume "regInvOver K (snd acc)" "?f acc x = Some (Inr acc1)"
        then show "regInvOver K (snd acc1)" by (rule requestField_grows)
      next
        show "regInv (snd (NewObjectSchema, st))" using i by simp
      next
        show "keysOf (snd (s, st1)) \<subseteq> keysOf B" using k by simp
      qed
      then obtain BN where "foldR ?f (fieldsOf env ?ty) (NewObjectSchema, B) = Some (Inr (s, BN))"
        and "keysOf BN = keysOf B"
        by auto
      with struct Some rs show ?thesis
        by (simp add: getRequestSchemaByModel.simps Let_def bindR_def)
    next
      case slice
      with g Some obtain r' s' a' where
        e: "getRequestSchemaByModel n env st (zeroIface env (elemOf env ?ty)) = Some (Inr (r', s', a', st1))"
        and rs: "r = []" "s = set_items (Some (SchemaRef r' (Some s'))) NewArraySchema" "a = None"
        by (auto simp: getRequestSchemaByModel.simps Let_def dest!: bindR_Inr)
      from q [OF i ib e k] slice Some rs show ?thesis
        by (auto simp: getRequestSchemaByModel.simps Let_def bindR_def)
    next
      case map
      with g Some obtain r' s' a' where
        e: "getRequestSchemaByModel n env st (zeroIface env (elemOf env ?ty)) = Some (Inr (r', s', a', st1))"
        and rs: "r = []" "s = set_items (Some (SchemaRef r' (Some s'))) NewObjectSchema" "a = None"
        by (auto simp: getRequestSchemaByModel.simps Let_def dest!: bindR_Inr)
      from q [OF i ib e k] map Some rs show ?thesis
        by (auto simp: getRequestSchemaByModel.simps Let_def bindR_def)
    next
      case other
      with g Some have "getSchemaByValue n env st (Some ty0) True = Some (Inr (r, s, a, st1))"
        by (simp add: getRequestSchemaByModel.simps Let_def)
      from v [OF i ib this k] other Some show ?thesis
        by (simp add: getRequestSchemaByModel.simps Let_def)
    qed
  qed
  have P: "\<exists>B1. getResponseSchemaByModel (Suc n) env B t = Some (Inr (r, s, a, B1)) \<and> keysOf B1 = keysOf B"
    if i: "regInv st" and ib: "regInv B"
      and g: "getResponseSchemaByModel (Suc n) env st t = Some (Inr (r, s, a, st1))"
      and k: "keysOf st1 \<subseteq> keysOf B"
    for st t r s a st1 B
  proof (cases t)
    case None
    with g show ?thesis by (auto simp: getResponseSchemaByModel.simps)
  next
    case (Some ty0)
    let ?ty = "derefType env ty0"
    let ?f = "responseField (\<lambda>s v. getSchemaByValue n env s v False) env"
    consider (struct) "kindOf env ?ty = Struct"
      | (slice) "kindOf env ?ty \<noteq> Struct" "kindOf env ?ty = Slice"
      | (map) "kindOf env ?ty \<noteq> Struct" "kindOf env ?ty \<noteq> Slice" "kindOf env ?ty = Map"
      | (other) "kindOf env ?ty \<noteq> Struct" "kindOf env ?ty \<noteq> Slice" "kindOf env ?ty \<noteq> Map"
      by blast
    then show ?thesis
    proof cases
      case struct
      with g Some have f: "foldR ?f (fieldsOf env ?ty) (NewObjectSchema, st) = Some (Inr (s, st1))"
        and rs: "r = generateRefName (nameOf ?ty)" "a = None"
        by (auto simp: getResponseSchemaByModel.simps Let_def dest!: bindR_Inr)
      have "\<exists>BN. foldR ?f (fieldsOf env ?ty) (fst (NewObjectSchema, st), B) = Some (Inr (fst (s, st1), BN))
              \<and> keysOf BN = keysOf B"
      proof (rule foldR_replay [OF _ _ _ ib f])
        fix acc x acc1 B'
        assume "regInv (snd acc)" "regInv B'" "?f acc x = Some (Inr acc1)" "keysOf (snd acc1) \<subseteq> keysOf B'"
        then show "\<exists>B1. ?f (fst acc, B') x = Some (Inr (fst acc1, B1)) \<and> keysOf B1 = keysOf B'"
          by (rule responseField_replay [rotated]) (rule v)
      next
        fix K acc x acc1
        assume "regInvOver K (snd acc)" "?f acc x = Some (Inr acc1)"
        then show "regInvOver K (snd acc1)" by (rule responseField_grows)
      next
        show "regInv (snd (NewObjectSchema, st))" using i by simp
      next
        show "keysOf (snd (s, st1)) \<subseteq> keysOf B" using k by simp
      qed
      then obtain BN where "foldR ?f (fieldsOf env ?ty) (NewObjectSchema, B) = Some (Inr (s, BN))"
        and "keysOf BN = keysOf B"
        by auto
      with struct Some rs show ?thesis
        by (simp add: getResponseSchemaByModel.simps Let_def bindR_def)
    next
      case slice
      with g Some obtain r' s' a' where
        e: "getResponseSchemaByModel n env st (zeroIface env (elemOf env ?ty)) = Some (Inr (r', s', a', st1))"
        and rs: "r = []" "s = set_items (Some (SchemaRef r' (Some s'))) NewArraySchema" "a = None"
        by (auto simp: getResponseSchemaByModel.simps Let_def dest!: bindR_Inr)
      from p [OF i ib e k] slice Some rs show ?thesis
        by (auto simp: getResponseSchemaByModel.simps Let_def bindR_def)
    next
      case map
      with g Some obtain r' s' a' where
        e: "getResponseSchemaByModel n env st (zeroIface env (elemOf env ?ty)) = Some (Inr (r', s', a', st1))"
        and rs: "r = []" "s = set_items (Some (SchemaRef r' (Some s'))) NewObjectSchema" "a = None"
        by (auto simp: getResponseSchemaByModel.simps Let_def dest!: bindR_Inr)
      from p [OF i ib e k] map Some rs show ?thesis
        by (auto simp: getResponseSchemaByModel.simps Let_def bindR_def)
    next
      case other
      let ?v = "if kindOf env ty0 = Ptr then zeroIface env ?ty else Some ty0"
      from other g Some have "getSchemaByValue n env st ?v False = Some (Inr (r, s, a, st1))"
        by (simp add: getResponseSchemaByModel.simps Let_def)
      from v [OF i ib this k] other Some show ?thesis
        by (simp add: getResponseSchemaByModel.simps Let_def)
    qed
  qed
  show ?case
    apply (intro conjI allI impI)
      apply (rule A [rotated 2]; assumption)
     apply (rule Q [rotated 2]; assumption)
    apply (rule P [rotated 2]; assumption)
    done
qed


lemma getSchemaByValue_replay:
  "regInv st \<Longrightarrow> regInv B \<Longrightarrow> getSchemaByValue n env st t b = Some (Inr (r, s, a, st1))
    \<Longrightarrow> keysOf st1 \<subseteq> keysOf B
    \<Longrightarrow> \<exists>B1. getSchemaByValue n env B t b = Some (Inr (r, s, a, B1)) \<and> keysOf B1 = keysOf B"
  by (rule walker_replay [THEN conjunct1, rule_format])

lemma regInv_step:
  assumes "\<And>K. regInvOver K st \<Longrightarrow> regInvOver K st1" and "regInv st"
  shows "regInv st1" and "keysOf st \<subseteq> keysOf st1"
proof -
  have "regInvOver (keysOf st) st1" using assms(2) by (intro assms(1) regInvOver_self)
  then show "regInv st1" and "keysOf st \<subseteq> keysOf st1"
    by (simp_all add: regInvOver_def)
qed

subsection \<open>Replaying the component synthesis\<close>

lemma ensureComponent_grows:
  assumes "regInvOver K st"
    and "ensureComponent (\<lambda>s v. getComponentByModel n env s v b) st name m = Some (Inr st1)"
  shows "regInvOver K st1"
  using assms(2)
proof (cases rule: ensureComponent_cases)
  case present
  with assms(1) show ?thesis by simp
next
  case absent
  from assms(1) absent(2) show ?thesis by (rule getComponentByModel_regInv)
qed

lemma ensureComponent_replay:
  assumes IH: "\<And>st m st1 B. regInv st \<Longrightarrow> regInv B \<Longrightarrow> getComponentByModel n env st m b = Some (Inr st1)
        \<Longrightarrow> keysOf st1 \<subseteq> keysOf B
        \<Longrightarrow> \<exists>B1. getComponentByModel n env B m b = Some (Inr B1) \<and> keysOf B1 = keysOf B"
    and i: "regInv st" and ib: "regInv B"
    and e: "ensureComponent (\<lambda>s v. getComponentByModel n env s v b) st name m = Some (Inr st1)"
    and k: "keysOf st1 \<subseteq> keysOf B"
  shows "\<exists>B1. ensureComponent (\<lambda>s v. getComponentByModel n env s v b) B name m = Some (Inr B1)
           \<and> keysOf B1 = keysOf B"
proof (cases "checkSchemaExist B name")
  case True
  then show ?thesis by (simp add: ensureComponent_def)
next
  case False
  have cb: "keyTitleCoherent B" and cs: "keyTitleCoherent st"
    using i ib by (simp_all add: regInv_def)
  from e show ?thesis
  proof (cases rule: ensureComponent_cases)
    case present
    then have "name \<in> keysOf st1"
      using cs by (simp add: checkSchemaExist_iff_key keysOf_def)
    with k have "name \<in> keysOf B" by auto
    then have "checkSchemaExist B name"
      using cb by (simp add: checkSchemaExist_iff_key keysOf_def)
    with False show ?thesis by simp
  next
    case absent
    from IH [OF i ib absent(2) k] False show ?thesis
      by (simp add: ensureComponent_def)
  qed
qed

lemma componentField_grows:
  assumes "regInvOver K (snd acc)"
    and "componentField (\<lambda>s v. getSchemaByValue n env s v b) (\<lambda>s v. getComponentByModel n env s v b)
           env b acc field = Some (Inr acc')"
  shows "regInvOver K (snd acc')"
proof (rule componentField_regInv [OF _ _ assms])
  fix st v r s a st'
  assume "regInvOver K st" and "getSchemaByValue n env st v b = Some (Inr (r, s, a, st'))"
  then show "regInvOver K st'" by (rule getSchemaByValue_regInv)
next
  fix st m st'
  assume "regInvOver K st" and "getComponentByModel n env st m b = Some (Inr st')"
  then show "regInvOver K st'" by (rule getComponentByModel_regInv)
qed


lemma componentField_replay:
  assumes IH: "\<And>st m st1 B. regInv st \<Longrightarrow> regInv B \<Longrightarrow> getComponentByModel n env st m b = Some (Inr st1)
        \<Longrightarrow> keysOf st1 \<subseteq> keysOf B
        \<Longrightarrow> \<exists>B1. getComponentByModel n env B m b = Some (Inr B1) \<and> keysOf B1 = keysOf B"
    and i: "regInv (snd acc)" and ib: "regInv B"
    and r: "componentField (\<lambda>s v. getSchemaByValue n env s v b) (\<lambda>s v. getComponentByModel n env s v b)
              env b acc field = Some (Inr acc')"
    and k: "keysOf (snd acc') \<subseteq> keysOf B"
  shows "\<exists>B'. componentField (\<lambda>s v. getSchemaByValue n env s v b) (\<lambda>s v. getComponentByModel n env s v b)
              env b (fst acc, B) field = Some (Inr (fst acc', B'))
           \<and> keysOf B' = keysOf B"
proof -
  let ?walk = "\<lambda>s v. getSchemaByValue n env s v b"
  let ?rec = "\<lambda>s v. getComponentByModel n env s v b"
  from r obtain tags where tags: "fld_tag field = Some tags"
    by (auto simp: componentField_def split: option.splits)
  let ?ft = "derefType env (fld_type field)"
  let ?ro = "kindOf env (fld_type field) \<noteq> Ptr \<and> \<not> fld_exported field"
  let ?name = "componentFieldName b tags field"
  let ?s1 = "if isRequiredTags tags then add_required ?name (fst acc) else fst acc"
  consider (skip) "tagsGet tags FORM = None \<and> b"
    | (st) "\<not> (tagsGet tags FORM = None \<and> b)" "kindOf env ?ft = Struct"
    | (sl) "\<not> (tagsGet tags FORM = None \<and> b)" "kindOf env ?ft = Slice"
    | (mp) "\<not> (tagsGet tags FORM = None \<and> b)" "kindOf env ?ft = Map"
    | (ifc) "\<not> (tagsGet tags FORM = None \<and> b)" "kindOf env ?ft = Interface"
    | (oth) "\<not> (tagsGet tags FORM = None \<and> b)" "kindOf env ?ft \<notin> {Struct, Slice, Map, Interface}"
    by blast
  then show ?thesis
  proof cases
    case skip
    with r tags have "acc' = acc" by (auto simp: componentField_def)
    with skip tags show ?thesis by (auto simp: componentField_def)
  next
    case st
    show ?thesis
    proof (cases "nameOf ?ft = ''Time''")
      case True
      let ?F = "\<lambda>s. set_type (Some ''string'') (set_format ''date-time'' s)"
      from r tags st True have ro: "\<not> ?ro"
        by (auto simp: componentField_def Let_def split: if_splits)
      with r tags st True obtain fr fs a st1 where
        wk: "?walk (snd acc) (zeroIface env ?ft) = Some (Inr (fr, fs, a, st1))"
        and e: "acc' = (put_property ?name (NewSchemaRef fr (Some (?F fs))) ?s1, mutate a ?F st1)"
        by (auto simp: componentField_def Let_def assign_def split: if_splits dest!: bindR_Inr)
      from k e have "keysOf st1 \<subseteq> keysOf B" by simp
      from getSchemaByValue_replay [OF i ib wk this] obtain B1 where
        wk2: "?walk B (zeroIface env ?ft) = Some (Inr (fr, fs, a, B1))" and k1: "keysOf B1 = keysOf B"
        by blast
      from tags st True ro wk2 have
        "componentField ?walk ?rec env b (fst acc, B) field = Some (Inr (fst acc', mutate a ?F B1))"
        by (auto simp: componentField_def Let_def bindR_def assign_def e)
      with k1 show ?thesis by simp
    next
      case False
      with r tags st obtain st1 where
        en: "ensureComponent ?rec (snd acc) (nameOf ?ft) (Some ?ft) = Some (Inr st1)"
        and e: "acc' = (put_property ?name (NewSchemaRef (generateRefName (nameOf ?ft)) None) ?s1, st1)"
        by (auto simp: componentField_def Let_def dest!: bindR_Inr)
      from k e have kk: "keysOf st1 \<subseteq> keysOf B" by simp
      have "\<exists>B1. ensureComponent ?rec B (nameOf ?ft) (Some ?ft) = Some (Inr B1) \<and> keysOf B1 = keysOf B"
        by (rule ensureComponent_replay [OF _ i ib en kk]) (rule IH; assumption)
      then obtain B1 where
        en2: "ensureComponent ?rec B (nameOf ?ft) (Some ?ft) = Some (Inr B1)" and k1: "keysOf B1 = keysOf B"
        by blast
      from tags st False en2 have
        "componentField ?walk ?rec env b (fst acc, B) field = Some (Inr (fst acc', B1))"
        by (auto simp: componentField_def Let_def bindR_def e)
      with k1 show ?thesis by blast
    qed
  next
    case sl
    let ?el = "elemOf env ?ft"
    from r tags sl have ro: "\<not> ?ro"
      by (auto simp: componentField_def Let_def split: if_splits)
    with r tags sl obtain fr fs a st1 where
      wk: "?walk (snd acc) (zeroIface env ?ft) = Some (Inr (fr, fs, a, st1))"
      by (auto simp: componentField_def Let_def split: if_splits dest!: bindR_Inr)
    have g1: "regInv st1"
      by (rule regInv_step(1) [OF getSchemaByValue_regInv [OF _ wk] i])
    show ?thesis
    proof (cases "isBuiltinType (kindOf env ?el)")
      case True
      with r tags sl ro wk obtain fs' st2 where
        dd: "descDefault tags a (fs, st1) = (fs', st2)"
        and e: "acc' = (put_property ?name (NewSchemaRef fr (Some fs')) ?s1, st2)"
        by (auto simp: componentField_def Let_def bindR_def split: if_splits prod.splits)
      from keysOf_descDefault [OF dd] k e have "keysOf st1 \<subseteq> keysOf B" by simp
      from getSchemaByValue_replay [OF i ib wk this] obtain B1 where
        wk2: "?walk B (zeroIface env ?ft) = Some (Inr (fr, fs, a, B1))" and k1: "keysOf B1 = keysOf B"
        by blast
      from descDefault_replay [OF dd, of B1] obtain B2 where
        dd2: "descDefault tags a (fs, B1) = (fs', B2)" and k2: "keysOf B2 = keysOf B1"
        by blast
      from tags sl True ro wk2 dd2 have
        "componentField ?walk ?rec env b (fst acc, B) field = Some (Inr (fst acc', B2))"
        by (auto simp: componentField_def Let_def bindR_def e)
      with k1 k2 show ?thesis by simp
    next
      case False
      let ?sub = "derefType env ?el"
      let ?I = "set_items (Some (NewSchemaRef (generateRefName (nameOf ?sub)) None))"
      from r tags sl ro wk False have ni: "kindOf env ?el \<noteq> Interface"
        by (auto simp: componentField_def Let_def bindR_def split: if_splits)
      with r tags sl ro wk False obtain st2 where
        en: "ensureComponent ?rec st1 (nameOf ?sub) (Some ?el) = Some (Inr st2)"
        and e: "acc' = (put_property ?name (NewSchemaRef fr (Some (?I fs))) ?s1, mutate a ?I st2)"
        by (auto simp: componentField_def Let_def bindR_def assign_def split: if_splits option.splits sum.splits)
      from k e have k2: "keysOf st2 \<subseteq> keysOf B" by simp
      have "keysOf st1 \<subseteq> keysOf st2"
        by (rule regInv_step(2) [OF ensureComponent_grows [OF _ en] g1])
      with k2 have "keysOf st1 \<subseteq> keysOf B" by simp
      from getSchemaByValue_replay [OF i ib wk this] obtain B1 where
        wk2: "?walk B (zeroIface env ?ft) = Some (Inr (fr, fs, a, B1))" and k1: "keysOf B1 = keysOf B"
        by blast
      have ib1: "regInv B1"
        by (rule regInv_step(1) [OF getSchemaByValue_regInv [OF _ wk2] ib])
      from k2 k1 have kk2: "keysOf st2 \<subseteq> keysOf B1" by simp
      have "\<exists>B2. ensureComponent ?rec B1 (nameOf ?sub) (Some ?el) = Some (Inr B2) \<and> keysOf B2 = keysOf B1"
        by (rule ensureComponent_replay [OF _ g1 ib1 en kk2]) (rule IH; assumption)
      then obtain B2 where
        en2: "ensureComponent ?rec B1 (nameOf ?sub) (Some ?el) = Some (Inr B2)" and kb2: "keysOf B2 = keysOf B1"
        by blast
      from tags sl False ro ni wk2 en2 have
        "componentField ?walk ?rec env b (fst acc, B) field = Some (Inr (fst acc', mutate a ?I B2))"
        by (auto simp: componentField_def Let_def bindR_def assign_def e)
      with k1 kb2 show ?thesis by simp
    qed
  next
    case mp
    let ?mv = "elemOf env ?ft"
    show ?thesis
    proof (cases "kindOf env ?mv = Struct")
      case True
      with r tags mp obtain st1 where
        en: "ensureComponent ?rec (snd acc) (nameOf ?mv) (Some ?mv) = Some (Inr st1)"
        and e: "acc' = (put_property ?name (NewSchemaRef [] (Some (set_additional None
                          (Some (NewSchemaRef (generateRefName (nameOf ?mv)) None)) NewObjectSchema))) ?s1, st1)"
        by (auto simp: componentField_def Let_def dest!: bindR_Inr)
      from k e have kk: "keysOf st1 \<subseteq> keysOf B" by simp
      have "\<exists>B1. ensureComponent ?rec B (nameOf ?mv) (Some ?mv) = Some (Inr B1) \<and> keysOf B1 = keysOf B"
        by (rule ensureComponent_replay [OF _ i ib en kk]) (rule IH; assumption)
      then obtain B1 where
        en2: "ensureComponent ?rec B (nameOf ?mv) (Some ?mv) = Some (Inr B1)" and k1: "keysOf B1 = keysOf B"
        by blast
      from tags mp True en2 have
        "componentField ?walk ?rec env b (fst acc, B) field = Some (Inr (fst acc', B1))"
        by (auto simp: componentField_def Let_def bindR_def e)
      with k1 show ?thesis by blast
    next
      case False
      with r tags mp obtain sch where e: "acc' = (sch, snd acc)"
        and "componentField ?walk ?rec env b (fst acc, B) field = Some (Inr (sch, B))"
        by (auto simp: componentField_def Let_def split: if_splits)
      then show ?thesis by simp
    qed
  next
    case ifc
    with r tags obtain sch where e: "acc' = (sch, snd acc)"
      and "componentField ?walk ?rec env b (fst acc, B) field = Some (Inr (sch, B))"
      by (auto simp: componentField_def Let_def split: if_splits)
    then show ?thesis by simp
  next
    case oth
    from r tags oth have ro: "\<not> ?ro"
      by (auto simp: componentField_def Let_def split: if_splits)
    with r tags oth obtain fr fs a st1 fs' st2 where
      wk: "?walk (snd acc) (zeroIface env ?ft) = Some (Inr (fr, fs, a, st1))"
      and dd: "descDefault tags a (fs, st1) = (fs', st2)"
      and e: "acc' = (put_property ?name (NewSchemaRef fr (Some fs')) ?s1, st2)"
      by (auto simp: componentField_def Let_def split: if_splits prod.splits dest!: bindR_Inr)
    from keysOf_descDefault [OF dd] k e have "keysOf st1 \<subseteq> keysOf B" by simp
    from getSchemaByValue_replay [OF i ib wk this] obtain B1 where
      wk2: "?walk B (zeroIface env ?ft) = Some (Inr (fr, fs, a, B1))" and k1: "keysOf B1 = keysOf B"
      by blast
    from descDefault_replay [OF dd, of B1] obtain B2 where
      dd2: "descDefault tags a (fs, B1) = (fs', B2)" and k2: "keysOf B2 = keysOf B1"
      by blast
    from tags oth ro wk2 dd2 have
      "componentField ?walk ?rec env b (fst acc, B) field = Some (Inr (fst acc', B2))"
      by (auto simp: componentField_def Let_def bindR_def e)
    with k1 k2 show ?thesis by simp
  qed
qed


lemma getComponentByModel_replay:
  "regInv st \<Longrightarrow> regInv B \<Longrightarrow> getComponentByModel n env st m b = Some (Inr st1)
    \<Longrightarrow> keysOf st1 \<subseteq> keysOf B
    \<Longrightarrow> \<exists>B1. getComponentByModel n env B m b = Some (Inr B1) \<and> keysOf B1 = keysOf B"
proof (induction n arbitrary: st B m st1)
  case 0
  then show ?case by (simp add: getComponentByModel.simps)
next
  case (Suc n)
  let ?f = "componentField (\<lambda>s v. getSchemaByValue n env s v b)
              (\<lambda>s v. getComponentByModel n env s v b) env b"
  have IH: "\<exists>B1. getComponentByModel n env B' m' b = Some (Inr B1) \<and> keysOf B1 = keysOf B'"
    if "regInv st'" "regInv B'" "getComponentByModel n env st' m' b = Some (Inr st1')"
       "keysOf st1' \<subseteq> keysOf B'" for st' m' st1' B'
    using that by (rule Suc.IH)
  from Suc.prems(3) show ?case
  proof (cases rule: getComponentByModel_Suc_cases)
    case nil
    then show ?thesis by (simp add: getComponentByModel.simps)
  next
    case (struct ty sch stN)
    let ?ty = "derefType env ty"
    let ?title = "removePackageName (nameOf ?ty)"
    let ?entry = "SchemaRef [] (Some (set_title ?title sch))"
    from struct(4) Suc.prems(4) have kN: "keysOf stN \<subseteq> keysOf B" and tin: "?title \<in> keysOf B"
      by auto
    have "\<exists>BN. foldR ?f (fieldsOf env ?ty) (fst (NewObjectSchema, st), B) = Some (Inr (fst (sch, stN), BN))
            \<and> keysOf BN = keysOf B"
    proof (rule foldR_replay [OF _ _ _ Suc.prems(2) struct(3)])
      fix acc x acc1 B'
      assume "regInv (snd acc)" "regInv B'" "?f acc x = Some (Inr acc1)" "keysOf (snd acc1) \<subseteq> keysOf B'"
      then show "\<exists>B1. ?f (fst acc, B') x = Some (Inr (fst acc1, B1)) \<and> keysOf B1 = keysOf B'"
        by (rule componentField_replay [rotated]) (rule IH; assumption)
    next
      fix K acc x acc1
      assume "regInvOver K (snd acc)" "?f acc x = Some (Inr acc1)"
      then show "regInvOver K (snd acc1)" by (rule componentField_grows)
    next
      show "regInv (snd (NewObjectSchema, st))" using Suc.prems(1) by simp
    next
      show "keysOf (snd (sch, stN)) \<subseteq> keysOf B" using kN by simp
    qed
    then obtain BN where f2: "foldR ?f (fieldsOf env ?ty) (NewObjectSchema, B) = Some (Inr (sch, BN))"
      and kb: "keysOf BN = keysOf B"
      by auto
    from struct(1,2) f2 have
      "getComponentByModel (Suc n) env B m b = Some (Inr (putSchema ?title ?entry BN))"
      by (simp add: getComponentByModel.simps Let_def bindR_def)
    moreover have "keysOf (putSchema ?title ?entry BN) = keysOf B"
      using kb tin by auto
    ultimately show ?thesis by auto
  next
    case (other ty)
    let ?ty = "derefType env ty"
    let ?title = "removePackageName (nameOf ?ty)"
    let ?entry = "SchemaRef [] (Some (set_title ?title NewObjectSchema))"
    from other(3) Suc.prems(4) have tin: "?title \<in> keysOf B" by auto
    from other(1,2) have
      "getComponentByModel (Suc n) env B m b = Some (Inr (putSchema ?title ?entry B))"
      by (simp add: getComponentByModel.simps Let_def bindR_def)
    moreover have "keysOf (putSchema ?title ?entry B) = keysOf B"
      using tin by auto
    ultimately show ?thesis by auto
  qed
qed

lemma distinctKeys_length: "distinctKeys st \<Longrightarrow> length (Schemas st) = card (keysOf st)"
proof -
  assume "distinctKeys st"
  then have "card (set (map fst (Schemas st))) = length (map fst (Schemas st))"
    unfolding distinctKeys_def by (rule distinct_card)
  then show ?thesis by (simp add: keysOf_def)
qed

text \<open>
  What a second call keeps. Let the keys of the registry be distinct and each the title of its
  entry (as in a fresh registry), and let \<^verbatim>\<open>getComponentByModel\<close> return for a model. Then a
  second call for the same model on the resulting registry, the members of each enum type
  being ranged over in the same order as in the first, returns as well and adds no key and no
  entry: the assignment \<^verbatim>\<open>Schemas[title] = schemaRef\<close> overwrites. Which schema an entry
  holds afterwards is another matter.
\<close>

lemma second_synthesis_keeps_keys:
  assumes "regInv st" and "getComponentByModel n env st (Some t) b = Some (Inr st1)"
  shows "\<exists>st2. getComponentByModel n env st1 (Some t) b = Some (Inr st2)
      \<and> keysOf st2 = keysOf st1 \<and> distinctKeys st2
      \<and> length (Schemas st2) = length (Schemas st1)"
proof -
  have "regInvOver {} st" using assms(1) by (simp add: regInvOver_empty)
  then have "regInvOver {} st1" using assms(2) by (rule getComponentByModel_regInv)
  then have i1: "regInv st1" by (simp add: regInvOver_empty)
  from getComponentByModel_replay [OF assms(1) i1 assms(2) subset_refl] obtain st2 where
    r: "getComponentByModel n env st1 (Some t) b = Some (Inr st2)"
    and k: "keysOf st2 = keysOf st1"
    by blast
  have "regInvOver {} st1" using i1 by (simp add: regInvOver_empty)
  then have "regInvOver {} st2" using r by (rule getComponentByModel_regInv)
  then have i2: "regInv st2" by (simp add: regInvOver_empty)
  from i1 i2 k have "length (Schemas st2) = length (Schemas st1)"
    by (simp add: distinctKeys_length regInv_def)
  with r k i2 show ?thesis by (auto simp: regInv_def)
qed

subsection \<open>Two instantiations under one title\<close>

text \<open>
  C8. A second synthesis of a model does not always leave the registry as the first one left
  it. \<^verbatim>\<open>Top\<close> has a field of type \<^verbatim>\<open>Pair[X, Z]\<close> and a field of type \<^verbatim>\<open>Holder\<close>, which has a
  field of type \<^verbatim>\<open>Pair[Y, Z]\<close>; \<^verbatim>\<open>removePackageName\<close> gives both instantiations the title
  \<^verbatim>\<open>ZPair\<close>. Before it descends into the type of a struct field, \<^verbatim>\<open>getComponentByModel\<close> asks
  \<^verbatim>\<open>checkSchemaExist\<close> for \<^verbatim>\<open>fieldType.Name()\<close>, here \<^verbatim>\<open>Pair[main.X,main.Z]\<close>, while
  the entries carry the title \<^verbatim>\<open>removePackageName(type_.Name())\<close>: for an instantiation
  that is registered the check is still false. On the fresh registry the first call
  derives \<^verbatim>\<open>Pair[X, Z]\<close>, then \<^verbatim>\<open>Holder\<close> and in it \<^verbatim>\<open>Pair[Y, Z]\<close>, whose schema stays under
  \<^verbatim>\<open>ZPair\<close>. The second call derives \<^verbatim>\<open>Pair[X, Z]\<close> again, finds \<^verbatim>\<open>Holder\<close> registered and
  does not descend into it, so the schema of \<^verbatim>\<open>Pair[X, Z]\<close> stays under \<^verbatim>\<open>ZPair\<close>. Both
  calls return, with the same keys; the registries differ.
\<close>

theorem second_synthesis_differs:
  "(case getComponentByModel 5 exampleEnv fresh (Some (Named ''main'' ''Top'')) False of
      Some (Inr st1) \<Rightarrow>
        (case getComponentByModel 5 exampleEnv st1 (Some (Named ''main'' ''Top'')) False of
           Some (Inr st2) \<Rightarrow>
             keysOf st1 = {''X'', ''Y'', ''Z'', ''ZPair'', ''Holder'', ''Top''}
             \<and> keysOf st2 = keysOf st1
             \<and> length (Schemas st2) = length (Schemas st1)
             \<and> checkSchemaExist st1 ''ZPair''
             \<and> \<not> checkSchemaExist st1 ''Pair[main.X,main.Z]''
             \<and> (case map_of (Schemas st1) ''ZPair'' of
                  Some (SchemaRef ref (Some sch)) \<Rightarrow>
                    map_of (s_properties sch) ''first'' = Some (SchemaRef ''#/components/schemas/Y'' None)
                | _ \<Rightarrow> False)
             \<and> (case map_of (Schemas st2) ''ZPair'' of
                  Some (SchemaRef ref (Some sch)) \<Rightarrow>
                    map_of (s_properties sch) ''first'' = Some (SchemaRef ''#/components/schemas/X'' None)
                | _ \<Rightarrow> False)
             \<and> Schemas st2 \<noteq> Schemas st1
         | _ \<Rightarrow> False)
    | _ \<Rightarrow> False)"
  by code_simp

end
